theory Spec2Isabelle
  imports Complex_Main "HOL-Library.Sublist" "HOL-Library.AList" "HOL-Library.Log_Nat"
begin

section \<open>Python strings\<close>

text \<open>
  A Python \<open>str\<close> is modelled as a \<open>string\<close>, one \<open>char\<close> per code point, for code
  points below 256. The character classes below are the ones Python's \<open>str\<close> methods and
  the \<open>re\<close> module use on that range.
\<close>

abbreviation nl :: char where
  "nl \<equiv> CHR 0x0A"

definition is_space :: "char \<Rightarrow> bool" where
  \<comment> \<open>\<open>str.isspace\<close> and the regex class \<open>\s\<close>\<close>
  "is_space c = (of_char c \<in> {9, 10, 11, 12, 13, 28, 29, 30, 31, 32, 133, 160 :: nat})"

definition is_digit :: "char \<Rightarrow> bool" where
  \<comment> \<open>the regex class \<open>\d\<close>\<close>
  "is_digit c = (48 \<le> (of_char c :: nat) \<and> (of_char c :: nat) \<le> 57)"

definition is_word :: "char \<Rightarrow> bool" where
  \<comment> \<open>the regex class \<open>\w\<close>: alphanumeric or underscore\<close>
  "is_word c =
     (let n = (of_char c :: nat) in
      (48 \<le> n \<and> n \<le> 57) \<or> (65 \<le> n \<and> n \<le> 90) \<or> n = 95 \<or> (97 \<le> n \<and> n \<le> 122) \<or>
      n \<in> {170, 178, 179, 181, 185, 186, 188, 189, 190} \<or>
      (192 \<le> n \<and> n \<le> 214) \<or> (216 \<le> n \<and> n \<le> 246) \<or> (248 \<le> n \<and> n \<le> 255))"

definition lower_char :: "char \<Rightarrow> char" where
  "lower_char c =
     (let n = (of_char c :: nat) in
      if (65 \<le> n \<and> n \<le> 90) \<or> (192 \<le> n \<and> n \<le> 214) \<or> (216 \<le> n \<and> n \<le> 222)
      then char_of (n + 32) else c)"

definition lower :: "string \<Rightarrow> string" where
  \<comment> \<open>\<open>str.lower\<close>\<close>
  "lower s = map lower_char s"

definition strip :: "string \<Rightarrow> string" where
  \<comment> \<open>\<open>str.strip\<close> with no argument\<close>
  "strip s = rev (dropWhile is_space (rev (dropWhile is_space s)))"

fun contains :: "string \<Rightarrow> string \<Rightarrow> bool" where
  \<comment> \<open>\<open>sub in s\<close>\<close>
  "contains sub [] = (sub = [])"
| "contains sub (c # cs) = (prefix sub (c # cs) \<or> contains sub cs)"

fun split_nl :: "string \<Rightarrow> string list" where
  \<comment> \<open>\<open>s.split('\n')\<close>\<close>
  "split_nl [] = [[]]"
| "split_nl (c # cs) =
     (if c = nl then [] # split_nl cs
      else (case split_nl cs of
              l # ls \<Rightarrow> (c # l) # ls
            | [] \<Rightarrow> [[c]]))"

fun join_nl :: "string list \<Rightarrow> string" where
  \<comment> \<open>\<open>"\n".join(ls)\<close>\<close>
  "join_nl [] = []"
| "join_nl [l] = l"
| "join_nl (l # ls) = l @ nl # join_nl ls"

fun remove_fences :: "string \<Rightarrow> string" where
  \<comment> \<open>\<open>s.replace("```", "")\<close>\<close>
  "remove_fences (a # b # c # cs) =
     (if a = CHR ''`'' \<and> b = CHR ''`'' \<and> c = CHR ''`'' then remove_fences cs
      else a # remove_fences (b # c # cs))"
| "remove_fences cs = cs"

section \<open>Regular-expression substitution\<close>

text \<open>
  \<open>re.sub\<close> scans the string from left to right. A matcher gets the character before the
  current position (\<open>None\<close> at the start of the string) and the rest of the string, and
  returns the length of the match that starts here, if there is one; the replacement is
  computed from the matched text. After a match the scan goes on behind it. None of the
  patterns of this program matches the empty string.
\<close>

function re_sub ::
  "(char option \<Rightarrow> string \<Rightarrow> nat option) \<Rightarrow> (string \<Rightarrow> string) \<Rightarrow> char option \<Rightarrow> string \<Rightarrow> string"
where
  "re_sub m r prev [] = []"
| "re_sub m r prev (c # cs) =
     (case m prev (c # cs) of
        None \<Rightarrow> c # re_sub m r (Some c) cs
      | Some n \<Rightarrow>
          if 0 < n \<and> n \<le> Suc (length cs)
          then r (take n (c # cs)) @ re_sub m r (Some (last (take n (c # cs)))) (drop n (c # cs))
          else c # re_sub m r (Some c) cs)"
  by pat_completeness auto
termination
  by (relation "measure (\<lambda>(m, r, prev, s). length s)") auto

fun re_search :: "(string \<Rightarrow> bool) \<Rightarrow> string \<Rightarrow> bool" where
  \<comment> \<open>\<open>re.search\<close>: the pattern matches at some position\<close>
  "re_search p [] = p []"
| "re_search p (c # cs) = (p (c # cs) \<or> re_search p cs)"

section \<open>Response formatter\<close>

definition import_head :: "string \<Rightarrow> bool" where
  \<comment> \<open>\<open>import\s+[\w\.]+\<close> matches at the start of \<open>s\<close>\<close>
  "import_head s =
     (prefix ''import'' s \<and>
      (let r = drop 6 s; r1 = dropWhile is_space r
       in length r1 < length r \<and> r1 \<noteq> [] \<and> (is_word (hd r1) \<or> hd r1 = CHR ''.'')))"

definition call_head :: "string \<Rightarrow> string \<Rightarrow> bool" where
  \<comment> \<open>\<open>kw\s+\w+\(\<close> matches at the start of \<open>s\<close>; the classes \<open>\s\<close>, \<open>\w\<close> and
      \<open>(\<close> are disjoint, so the greedy runs are the only way to match\<close>
  "call_head kw s =
     (prefix kw s \<and>
      (let r = drop (length kw) s; r1 = dropWhile is_space r; r2 = dropWhile is_word r1
       in length r1 < length r \<and> length r2 < length r1 \<and> r2 \<noteq> [] \<and> hd r2 = CHR ''(''))"

definition code_signature :: "string \<Rightarrow> bool" where
  \<comment> \<open>\<open>(import\s+[\w\.]+|def\s+\w+\(|class\s+\w+\(|function\s+\w+\()\<close> at the start of \<open>s\<close>\<close>
  "code_signature s =
     (import_head s \<or> call_head ''def'' s \<or> call_head ''class'' s \<or> call_head ''function'' s)"

fun fence_loop :: "bool \<Rightarrow> string list \<Rightarrow> string list \<Rightarrow> bool \<times> string list" where
  \<comment> \<open>the loop over \<open>lines\<close>; the state is \<open>in_code_block\<close> and \<open>formatted_lines\<close>\<close>
  "fence_loop in_code_block formatted_lines [] = (in_code_block, formatted_lines)"
| "fence_loop in_code_block formatted_lines (line # lines) =
     (if code_signature (strip line) \<and> \<not> in_code_block
      then fence_loop True (formatted_lines @ [''```python'', line]) lines
      else if in_code_block \<and> strip line = [] \<and> length formatted_lines > 0
      then fence_loop False (formatted_lines @ [''```'', line]) lines
      else fence_loop in_code_block (formatted_lines @ [line]) lines)"

definition fence_code :: "string \<Rightarrow> string" where
  "fence_code response =
     (if \<not> contains ''```'' response \<and> re_search code_signature response
      then (case fence_loop False [] (split_nl response) of
              (in_code_block, formatted_lines) \<Rightarrow>
                join_nl (if in_code_block then formatted_lines @ [''```''] else formatted_lines))
      else response)"

definition important_keywords :: "string list" where
  "important_keywords = [''IMPORTANT'', ''WARNING'', ''CRITICAL'', ''NOTE'', ''CAUTION'']"

definition match_len :: "string \<Rightarrow> string \<Rightarrow> nat" where
  \<comment> \<open>the length of a match of \<open>(KEYWORD:)(.*?)(\n|$)\<close> at the start of \<open>s\<close>: the lazy
      group stops at the first newline, which is matched too, or at the end of the string\<close>
  "match_len keyword s =
     (let rest = drop (Suc (length keyword)) s; g2 = takeWhile (\<lambda>c. c \<noteq> nl) rest
      in Suc (length keyword) + length g2 + (if length g2 < length rest then 1 else 0))"

definition keyword_match :: "string \<Rightarrow> char option \<Rightarrow> string \<Rightarrow> nat option" where
  \<comment> \<open>\<open>(KEYWORD:)(.*?)(\n|$)\<close> with \<open>re.IGNORECASE\<close>\<close>
  "keyword_match keyword prev s =
     (let k = Suc (length keyword) in
      if k \<le> length s \<and> lower (take k s) = lower (keyword @ '':'')
      then Some (match_len keyword s)
      else None)"

definition keyword_repl :: "string \<Rightarrow> string \<Rightarrow> string" where
  \<comment> \<open>the replacement \<open>**_\1_** \2\3\<close>\<close>
  "keyword_repl keyword matched =
     ''**_'' @ take (Suc (length keyword)) matched @ ''_** '' @ drop (Suc (length keyword)) matched"

definition highlight :: "string \<Rightarrow> string \<Rightarrow> string" where
  "highlight keyword response = re_sub (keyword_match keyword) (keyword_repl keyword) None response"

definition line_start :: "char option \<Rightarrow> bool" where
  \<comment> \<open>\<open>(?<!\n)^\<close> with \<open>re.MULTILINE\<close>: at the start of the string or behind a newline, and
      not behind a newline\<close>
  "line_start prev = ((prev = None \<or> prev = Some nl) \<and> prev \<noteq> Some nl)"

definition numbered_match :: "char option \<Rightarrow> string \<Rightarrow> nat option" where
  \<comment> \<open>\<open>(?<!\n)^(\d+\.\s)\<close>\<close>
  "numbered_match prev s =
     (let ds = takeWhile is_digit s in
      if line_start prev \<and> ds \<noteq> [] \<and>
         (case drop (length ds) s of
            d # sp # _ \<Rightarrow> d = CHR ''.'' \<and> is_space sp
          | _ \<Rightarrow> False)
      then Some (length ds + 2) else None)"

definition bullet_match :: "char option \<Rightarrow> string \<Rightarrow> nat option" where
  \<comment> \<open>\<open>(?<!\n)^(-\s)\<close>\<close>
  "bullet_match prev s =
     (if line_start prev \<and> (case s of d # sp # _ \<Rightarrow> d = CHR ''-'' \<and> is_space sp | _ \<Rightarrow> False)
      then Some 2 else None)"

definition newline_before :: "string \<Rightarrow> string" where
  \<comment> \<open>the replacement \<open>\n\1\<close>\<close>
  "newline_before matched = nl # matched"

definition enhance_response_formatting :: "string \<Rightarrow> string" where
  "enhance_response_formatting response =
     (let response1 = fence_code response;
          response2 = fold highlight important_keywords response1;
          response3 = re_sub numbered_match newline_before None response2
      in re_sub bullet_match newline_before None response3)"

section \<open>Simulated responder\<close>

definition avos_info :: string where
  \<open>avos_info = ''AVOS (Autonomous Vehicle Operating System) is NVIDIA's comprehensive software stack designed for autonomous vehicles. It provides a flexible, scalable platform that integrates perception, planning, and control systems necessary for self-driving capabilities.''\<close>

definition drive_info :: string where
  \<open>drive_info = ''NVIDIA DRIVE is a platform that uses AVOS and is designed for developing autonomous vehicles. It includes both hardware (like the DRIVE AGX Orin system-on-a-chip) and software components that work together to enable self-driving capabilities.''\<close>

definition driveos_info :: string where
  \<open>driveos_info = ''DriveOS is the operating system layer of NVIDIA's autonomous vehicle software stack. It provides a foundation for running autonomous driving applications, managing hardware resources, and ensuring real-time performance for critical driving functions.''\<close>

definition ndas_info :: string where
  \<open>ndas_info = ''NDAS (NVIDIA Data Annotation System) is a tool for labeling and annotating sensor data collected from vehicles. It helps create training datasets for machine learning models used in autonomous driving systems.''\<close>

definition feature_info :: string where
  \<open>feature_info = ''AVOS includes many features such as:\<newline>- Sensor fusion for combining data from cameras, radar, and lidar\<newline>- Perception systems for object detection and classification\<newline>- Planning and decision-making algorithms\<newline>- Control systems for vehicle operation\<newline>- Simulation capabilities for testing and validation\<newline>- Over-the-air update functionality''\<close>

definition dtsi_info :: string where
  \<open>dtsi_info = ''In the context of DriveOS, a DTSI (Device Tree Source Include) file is used to describe hardware components and their properties. The "startupcmd" DTSI file specifically contains commands that are executed during system startup to configure hardware components and initialize services.''\<close>

definition steps_info :: string where
  \<open>steps_info = ''To integrate DriveOS changes into NDAS, you would typically follow these steps:\<newline>1. Develop and test your changes in a DriveOS development environment\<newline>2. Document the changes thoroughly\<newline>3. Submit the changes through the code review process\<newline>4. Work with the NDAS team to integrate and test the changes\<newline>5. Monitor and validate the integration through regression testing''\<close>

definition secpolicy_info :: string where
  \<open>secpolicy_info = ''AVOS Customizations for Security Policy (SecPolicy) include configurations for mounting policies and folder hierarchy support. SecPolicy files are available for both debug and production environments, typically named policy_debug_orin_gos_vm_safety.txt and policy_prod_orin_gos_vm_safety.txt respectively. The security policy enforces folder hierarchy and mounting restrictions.''\<close>

definition avos_knowledge :: "(string \<times> string) list" where
  \<comment> \<open>the dictionary, in insertion order, which is the order of iteration\<close>
  "avos_knowledge =
     [(''avos'', avos_info), (''drive'', drive_info), (''driveos'', driveos_info),
      (''ndas'', ndas_info), (''feature'', feature_info), (''dtsi'', dtsi_info),
      (''steps'', steps_info), (''secpolicy'', secpolicy_info)]"

definition default_response :: string where
  \<open>default_response = ''I don't have specific information about that aspect of AVOS. Could you ask something more general about AVOS capabilities or features?''\<close>

definition context_response :: "string \<Rightarrow> string" where
  \<open>context_response context =
     ''Based on the available information: '' @ context @
     ''\<newline>\<newline>However, please note that this information may be limited. For more detailed information, please consult the official NVIDIA AVOS documentation.''\<close>

fun scan_knowledge :: "(string \<times> string) list \<Rightarrow> string \<Rightarrow> string \<Rightarrow> string" where
  \<comment> \<open>the loop over the items, left at the first keyword found in the prompt\<close>
  "scan_knowledge [] prompt_lower response = response"
| "scan_knowledge ((keyword, info) # items) prompt_lower response =
     (if contains (lower keyword) prompt_lower then info
      else scan_knowledge items prompt_lower response)"

definition simulated_response_text :: "string \<Rightarrow> string \<Rightarrow> string" where
  \<comment> \<open>the value of \<open>response\<close> that \<open>get_simulated_response\<close> hands to the formatter\<close>
  \<open>simulated_response_text prompt context =
     (let prompt_lower = lower prompt;
          response = scan_knowledge avos_knowledge prompt_lower default_response;
          response = (if context \<noteq> [] \<and> contains ''I don't have specific information'' response
                      then context_response context else response);
          response = (if contains ''driveos'' prompt_lower \<and> contains ''ndas'' prompt_lower
                      then steps_info else response);
          response = (if contains ''dtsi'' prompt_lower \<and> contains ''startupcmd'' prompt_lower
                      then dtsi_info else response);
          response = (if contains ''secpolicy'' prompt_lower \<or>
                         (contains ''security'' prompt_lower \<and> contains ''policy'' prompt_lower)
                      then secpolicy_info else response)
      in response)\<close>

definition get_simulated_response :: "string \<Rightarrow> string \<Rightarrow> string" where
  \<comment> \<open>on \<open>str\<close> arguments no statement of the body raises, so neither \<open>except\<close> branch
      nor the type check of \<open>safe_response\<close> is reached\<close>
  "get_simulated_response prompt context =
     enhance_response_formatting (simulated_response_text prompt context)"

section \<open>Python values\<close>

text \<open>
  The values that \<open>json.loads\<close> produces. A \<open>dict\<close> is an association list in insertion
  order, with string keys, each key once. A \<open>float\<close> is a double: a finite one is given by
  its value, and \<open>json.loads\<close> also reads \<open>Infinity\<close>, \<open>-Infinity\<close> and \<open>NaN\<close>. An \<open>int\<close> is
  unbounded.

  The result of an operation on doubles is the double nearest to the exact result, the
  one with an even significand when two are equally near (\<open>double_of\<close>): a double has 53
  significant bits, the exponent of its leading bit lies between \<open>-1022\<close> and \<open>1023\<close>, and
  below that range the spacing stays \<open>2 ** -1074\<close>. A result that rounds to \<open>2 ** 1024\<close> or
  more is an infinity in an addition, and \<open>OverflowError\<close> in the conversion of an \<open>int\<close>.
\<close>

datatype pyfloat = Finite real | PosInf | NegInf | NaN

definition pow2 :: "int \<Rightarrow> real" where
  "pow2 k = (if 0 \<le> k then 2 ^ nat k else 1 / 2 ^ nat (- k))"

definition exponent :: "real \<Rightarrow> int" where
  \<comment> \<open>for \<open>0 < a\<close>, the \<open>e\<close> with \<open>2 ** e \<le> a < 2 ** (e + 1)\<close>\<close>
  "exponent a =
     (if 1 \<le> a then bitlen \<lfloor>a\<rfloor> - 1
      else let k = bitlen \<lfloor>1 / a\<rfloor> - 1 in if a = pow2 (- k) then - k else - k - 1)"

definition round_half_even :: "real \<Rightarrow> int" where
  "round_half_even y =
     (let f = \<lfloor>y\<rfloor>; d = y - of_int f
      in if d < 1 / 2 then f else if 1 / 2 < d then f + 1 else if even f then f else f + 1)"

definition double_of :: "real \<Rightarrow> pyfloat" where
  "double_of x =
     (if x = 0 then Finite 0
      else let ulp = pow2 (max (exponent \<bar>x\<bar>) (- 1022) - 52);
               r = of_int (round_half_even (\<bar>x\<bar> / ulp)) * ulp
           in if 2 ^ 1024 \<le> r then (if 0 < x then PosInf else NegInf)
              else Finite (if 0 < x then r else - r))"

fun float_add :: "pyfloat \<Rightarrow> pyfloat \<Rightarrow> pyfloat" where
  \<comment> \<open>the sum of two doubles\<close>
  "float_add (Finite a) (Finite b) = double_of (a + b)"
| "float_add NaN y = NaN"
| "float_add x NaN = NaN"
| "float_add PosInf NegInf = NaN"
| "float_add NegInf PosInf = NaN"
| "float_add PosInf y = PosInf"
| "float_add x PosInf = PosInf"
| "float_add NegInf y = NegInf"
| "float_add x NegInf = NegInf"

definition float_of_int :: "int \<Rightarrow> pyfloat option" where
  \<comment> \<open>the conversion of an \<open>int\<close> operand; \<open>None\<close> is \<open>OverflowError\<close>\<close>
  "float_of_int i = (case double_of (of_int i) of Finite r \<Rightarrow> Some (Finite r) | _ \<Rightarrow> None)"

datatype pyval =
    PNone
  | PBool bool
  | PInt int
  | PFloat pyfloat
  | PStr string
  | PList "pyval list"
  | PDict "(string \<times> pyval) list"

datatype py_error = AttributeError | TypeError | KeyError | OverflowError

fun truthy :: "pyval \<Rightarrow> bool" where
  "truthy PNone = False"
| "truthy (PBool b) = b"
| "truthy (PInt i) = (i \<noteq> 0)"
| "truthy (PFloat x) = (x \<noteq> Finite 0)"
| "truthy (PStr s) = (s \<noteq> [])"
| "truthy (PList xs) = (xs \<noteq> [])"
| "truthy (PDict kvs) = (kvs \<noteq> [])"

fun has_key :: "string \<Rightarrow> pyval \<Rightarrow> py_error + bool" where
  \<comment> \<open>\<open>key in v\<close> for a string \<open>key\<close>\<close>
  "has_key key (PDict kvs) = Inr (map_of kvs key \<noteq> None)"
| "has_key key (PList xs) = Inr (PStr key \<in> set xs)"
| "has_key key (PStr s) = Inr (contains key s)"
| "has_key key _ = Inl TypeError"

fun subscript :: "pyval \<Rightarrow> string \<Rightarrow> py_error + pyval" where
  \<comment> \<open>\<open>v[key]\<close> for a string \<open>key\<close>\<close>
  "subscript (PDict kvs) key = (case map_of kvs key of None \<Rightarrow> Inl KeyError | Some v \<Rightarrow> Inr v)"
| "subscript _ key = Inl TypeError"

fun set_item :: "pyval \<Rightarrow> string \<Rightarrow> pyval \<Rightarrow> py_error + pyval" where
  \<comment> \<open>\<open>v[key] = x\<close> for a string \<open>key\<close>: an existing key keeps its place, a new one goes last\<close>
  "set_item (PDict kvs) key x = Inr (PDict (AList.update key x kvs))"
| "set_item _ key x = Inl TypeError"

fun int_like :: "pyval \<Rightarrow> int option" where
  \<comment> \<open>the integers, \<open>bool\<close> among them\<close>
  "int_like (PInt i) = Some i"
| "int_like (PBool b) = Some (if b then 1 else 0)"
| "int_like _ = None"

fun time_before :: "real \<Rightarrow> pyval \<Rightarrow> py_error + bool" where
  \<comment> \<open>\<open>time.time() < v\<close>, where \<open>now\<close> is the value of the (finite) double that
      \<open>time.time()\<close> returns; Python compares a \<open>float\<close> with an \<open>int\<close> exactly\<close>
  "time_before now (PInt i) = Inr (now < of_int i)"
| "time_before now (PBool b) = Inr (now < (if b then 1 else 0))"
| "time_before now (PFloat (Finite x)) = Inr (now < x)"
| "time_before now (PFloat PosInf) = Inr True"
| "time_before now (PFloat NegInf) = Inr False"
| "time_before now (PFloat NaN) = Inr False"
| "time_before now _ = Inl TypeError"

fun is_float :: "pyval \<Rightarrow> bool" where
  "is_float (PFloat x) = True"
| "is_float _ = False"

definition as_float :: "pyval \<Rightarrow> py_error + pyfloat" where
  \<comment> \<open>an operand of an addition of doubles: a \<open>float\<close> as it is, an integer converted\<close>
  "as_float v =
     (case v of
        PFloat x \<Rightarrow> Inr x
      | _ \<Rightarrow>
          (case int_like v of
             None \<Rightarrow> Inl TypeError
           | Some i \<Rightarrow>
               (case float_of_int i of
                  None \<Rightarrow> Inl OverflowError
                | Some x \<Rightarrow> Inr x)))"

definition py_add :: "pyval \<Rightarrow> pyval \<Rightarrow> py_error + pyval" where
  \<comment> \<open>\<open>a + b\<close>: integers add exactly, a \<open>float\<close> operand makes it an addition of doubles,
      two strings or two lists are joined, anything else raises \<open>TypeError\<close>\<close>
  "py_add a b =
     (case (int_like a, int_like b) of
        (Some i, Some j) \<Rightarrow> Inr (PInt (i + j))
      | _ \<Rightarrow>
          if is_float a \<or> is_float b
          then (case as_float a of
                  Inl err \<Rightarrow> Inl err
                | Inr x \<Rightarrow>
                    (case as_float b of
                       Inl err \<Rightarrow> Inl err
                     | Inr y \<Rightarrow> Inr (PFloat (float_add x y))))
          else (case a of
                  PStr s \<Rightarrow> (case b of PStr t \<Rightarrow> Inr (PStr (s @ t)) | _ \<Rightarrow> Inl TypeError)
                | PList xs \<Rightarrow> (case b of PList ys \<Rightarrow> Inr (PList (xs @ ys)) | _ \<Rightarrow> Inl TypeError)
                | _ \<Rightarrow> Inl TypeError))"

section \<open>Context formatter\<close>

definition db_header :: string where
  \<open>db_header = ''\<newline>IMPORTANT: The following information contains code blocks that must be preserved EXACTLY as shown,\<newline>with their original formatting, indentation, comments, and whitespace.\<newline>===== DATABASE INFORMATION START =====\<newline>\<newline>''\<close>

definition db_end :: string where
  \<open>db_end = ''\<newline>===== DATABASE INFORMATION END =====\<newline>''\<close>

definition db_reminder :: string where
  \<open>db_reminder = ''\<newline>REMEMBER: When including code blocks in your response, reproduce them EXACTLY as shown above,\<newline>with the same formatting, indentation, comments, and whitespace. Do not modify any code.\<newline>''\<close>

definition code_block_start :: "string \<Rightarrow> string" where
  \<open>code_block_start code_block_lang =
     [nl] @ ''<CODE_BLOCK_START lang="'' @ code_block_lang @ ''">'' @ [nl]\<close>

definition code_block_end :: string where
  \<open>code_block_end = ''<CODE_BLOCK_END>'' @ [nl, nl]\<close>

fun content_loop :: "bool \<Rightarrow> string \<Rightarrow> string list \<Rightarrow> bool \<times> string" where
  \<comment> \<open>the loop over the lines of \<open>content\<close>; the state is \<open>in_code_block\<close> and
      \<open>formatted_data\<close>\<close>
  "content_loop in_code_block formatted_data [] = (in_code_block, formatted_data)"
| "content_loop in_code_block formatted_data (line # lines) =
     (if prefix ''```'' (strip line) \<and> \<not> in_code_block
      then content_loop True
             (formatted_data @ code_block_start (strip (remove_fences (strip line))) @ line @ [nl])
             lines
      else if strip line = ''```'' \<and> in_code_block
      then content_loop False (formatted_data @ line @ [nl] @ code_block_end) lines
      else content_loop in_code_block (formatted_data @ line @ [nl]) lines)"

fun other_fields :: "(pyval \<Rightarrow> string) \<Rightarrow> (string \<times> pyval) list \<Rightarrow> string \<Rightarrow> string" where
  "other_fields str_of [] formatted_data = formatted_data"
| "other_fields str_of ((key, v) # kvs) formatted_data =
     other_fields str_of kvs
       (if key \<notin> set [''pageTitle'', ''content'']
        then formatted_data @ ''- '' @ key @ '': '' @ str_of v @ [nl]
        else formatted_data)"

fun all_fields :: "(pyval \<Rightarrow> string) \<Rightarrow> (string \<times> pyval) list \<Rightarrow> string \<Rightarrow> string" where
  "all_fields str_of [] formatted_data = formatted_data"
| "all_fields str_of ((key, v) # kvs) formatted_data =
     all_fields str_of kvs (formatted_data @ ''- '' @ key @ '': '' @ str_of v @ [nl])"

definition format_record ::
  "(pyval \<Rightarrow> string) \<Rightarrow> (string \<times> pyval) list \<Rightarrow> string \<Rightarrow> py_error + string" where
  \<comment> \<open>one \<open>dict\<close> item of the list; \<open>content.split\<close> raises unless \<open>content\<close> is a \<open>str\<close>\<close>
  "format_record str_of item formatted_data =
     (let formatted_data =
            (case map_of item ''pageTitle'' of
               Some title \<Rightarrow> formatted_data @ ''## '' @ str_of title @ [nl, nl]
             | None \<Rightarrow> formatted_data)
      in case map_of item ''content'' of
           None \<Rightarrow> Inr (other_fields str_of item formatted_data @ [nl] @ ''---'' @ [nl, nl])
         | Some (PStr content) \<Rightarrow>
             Inr (other_fields str_of item
                    (snd (content_loop False formatted_data (split_nl content)) @ [nl])
                  @ [nl] @ ''---'' @ [nl, nl])
         | Some _ \<Rightarrow> Inl AttributeError)"

fun format_items ::
  "(pyval \<Rightarrow> string) \<Rightarrow> nat \<Rightarrow> pyval list \<Rightarrow> string \<Rightarrow> py_error + string" where
  \<comment> \<open>the loop over \<open>enumerate(db_data)\<close>\<close>
  "format_items str_of i [] formatted_data = Inr formatted_data"
| "format_items str_of i (PDict item # items) formatted_data =
     (case format_record str_of item formatted_data of
        Inl e \<Rightarrow> Inl e
      | Inr formatted_data \<Rightarrow> format_items str_of (Suc i) items formatted_data)"
| "format_items str_of i (item # items) formatted_data =
     format_items str_of (Suc i) items
       (formatted_data @ ''Item '' @ str_of (PInt (int i + 1)) @ '':'' @ [nl] @ str_of item @ [nl, nl])"

definition format_db_data_for_llm :: "(pyval \<Rightarrow> string) \<Rightarrow> pyval \<Rightarrow> py_error + string" where
  \<comment> \<open>\<open>str_of\<close> is Python's \<open>str\<close>, which the f-strings apply to the values\<close>
  "format_db_data_for_llm str_of db_data =
     (if \<not> truthy db_data then Inr []
      else case (case db_data of
                   PList items \<Rightarrow> format_items str_of 0 items db_header
                 | PDict kvs \<Rightarrow>
                     Inr (all_fields str_of kvs (db_header @ ''Retrieved information:'' @ [nl, nl]))
                 | _ \<Rightarrow> Inr (db_header @ ''Retrieved information:'' @ [nl, nl] @ str_of db_data)) of
             Inl e \<Rightarrow> Inl e
           | Inr formatted_data \<Rightarrow> Inr (formatted_data @ db_end @ db_reminder))"

section \<open>Token cache\<close>

text \<open>
  The cache file is missing, or present but not readable as JSON (\<open>open\<close> or \<open>json.load\<close>
  raises), or it holds a JSON document. The world also records the token requests sent.
\<close>

datatype file_state = Absent | Unreadable | Document pyval

datatype http_result = RequestFails | Body pyval

datatype api_result = ApiFails | Content pyval

datatype client = AzureOpenAI pyval

record world =
  cache_file :: file_state
  requests_sent :: "(string \<times> string) list"

record env =
  DEPENDENCIES_INSTALLED :: bool
  time_at_check :: real
  time_at_stamp :: real
  token_response :: http_result
  write_ok :: bool
  token_url :: string
  client_id :: string
  client_secret :: string
  client_ok :: bool
  default_system_prompt :: string
  json_loads :: "string \<Rightarrow> pyval option"
  chat_completion :: "client \<Rightarrow> pyval list \<Rightarrow> api_result"
  str_of :: "pyval \<Rightarrow> string"

definition cached_token :: "real \<Rightarrow> pyval \<Rightarrow> py_error + pyval option" where
  \<comment> \<open>the test of the cached document: \<open>Inr (Some v)\<close> is \<open>return token["access_token"]\<close>,
      \<open>Inr None\<close> falls through to the request\<close>
  "cached_token now token =
     (case has_key ''expires_in'' token of
        Inl err \<Rightarrow> Inl err
      | Inr False \<Rightarrow> Inr None
      | Inr True \<Rightarrow>
          (case has_key ''created_at'' token of
             Inl err \<Rightarrow> Inl err
           | Inr False \<Rightarrow> Inr None
           | Inr True \<Rightarrow>
               (case subscript token ''created_at'' of
                  Inl err \<Rightarrow> Inl err
                | Inr created_at \<Rightarrow>
                    (case subscript token ''expires_in'' of
                       Inl err \<Rightarrow> Inl err
                     | Inr expires_in \<Rightarrow>
                         (case py_add created_at expires_in of
                            Inl err \<Rightarrow> Inl err
                          | Inr expiry_time \<Rightarrow>
                              (case time_before now expiry_time of
                                 Inl err \<Rightarrow> Inl err
                               | Inr True \<Rightarrow>
                                   (case subscript token ''access_token'' of
                                      Inl err \<Rightarrow> Inl err
                                    | Inr v \<Rightarrow> Inr (Some v))
                               | Inr False \<Rightarrow> Inr None))))))"

definition request_token :: "env \<Rightarrow> world \<Rightarrow> string \<Rightarrow> string \<Rightarrow> pyval \<times> world" where
  \<comment> \<open>the second half of \<open>get_oauth_token\<close>: the POST, the timestamp, the write and the
      return; every exception ends in \<open>return None\<close>\<close>
  "request_token e w p_token_url p_scope =
     (let w = w\<lparr>requests_sent :=
                  requests_sent w @ [(p_token_url, ''grant_type=client_credentials&scope='' @ p_scope)]\<rparr>
      in case token_response e of
           RequestFails \<Rightarrow> (PNone, w)
         | Body token \<Rightarrow>
             (case set_item token ''created_at'' (PFloat (Finite (time_at_stamp e))) of
                Inl err \<Rightarrow> (PNone, w)
              | Inr token \<Rightarrow>
                  if \<not> write_ok e then (PNone, w)
                  else (let w = w\<lparr>cache_file := Document token\<rparr>
                        in case subscript token ''access_token'' of
                             Inl err \<Rightarrow> (PNone, w)
                           | Inr v \<Rightarrow> (v, w))))"

definition get_oauth_token ::
  "env \<Rightarrow> world \<Rightarrow> string \<Rightarrow> string \<Rightarrow> string \<Rightarrow> string \<Rightarrow> pyval \<times> world" where
  "get_oauth_token e w p_token_url p_client_id p_client_secret p_scope =
     (if \<not> DEPENDENCIES_INSTALLED e then (PNone, w)
      else case cache_file w of
             Absent \<Rightarrow> request_token e w p_token_url p_scope
           | Unreadable \<Rightarrow> (PNone, w)
           | Document token \<Rightarrow>
               (case cached_token (time_at_check e) token of
                  Inl err \<Rightarrow> (PNone, w)
                | Inr (Some v) \<Rightarrow> (v, w)
                | Inr None \<Rightarrow> request_token e w p_token_url p_scope))"

definition get_azure_client :: "env \<Rightarrow> world \<Rightarrow> client option \<times> world" where
  "get_azure_client e w =
     (if \<not> DEPENDENCIES_INSTALLED e then (None, w)
      else case get_oauth_token e w (token_url e) (client_id e) (client_secret e)
                  ''azureopenai-readwrite'' of
             (token, w) \<Rightarrow>
               if \<not> truthy token then (None, w)
               else if client_ok e then (Some (AzureOpenAI token), w)
               else (None, w))"

section \<open>Response orchestrator\<close>

definition formatting_guidance :: string where
  \<open>formatting_guidance = ''\<newline>When responding, please format your answer appropriately:\<newline>- Use code blocks with proper language specification for any code (```python, ```bash, etc.)\<newline>- Highlight IMPORTANT information in bold and italic format (**_important_**)\<newline>- Use proper Markdown for lists, headings, and other formatting\<newline>- If you're explaining steps, use numbered lists\<newline>- Use bullet points for feature lists\<newline>''\<close>

definition message :: "string \<Rightarrow> string \<Rightarrow> pyval" where
  "message role content = PDict [(''role'', PStr role), (''content'', PStr content)]"

definition build_messages :: "env \<Rightarrow> string \<Rightarrow> string \<Rightarrow> string \<Rightarrow> string \<Rightarrow> pyval list" where
  "build_messages e prompt context system_prompt conversation_history_json =
     [message ''system'' (if system_prompt \<noteq> [] then system_prompt else default_system_prompt e)]
     @ (case json_loads e conversation_history_json of
          Some (PList conversation_history) \<Rightarrow> conversation_history
        | _ \<Rightarrow> [])
     @ (if context \<noteq> [] then [message ''user'' (''Context information: '' @ context)] else [])
     @ [message ''user'' (prompt @ [nl, nl] @ formatting_guidance)]"

definition technical_difficulties :: string where
  \<open>technical_difficulties = ''I apologize for the inconvenience, but I'm experiencing technical difficulties. Please try again later.''\<close>

definition safe_response :: "py_error + pyval \<Rightarrow> string" where
  \<comment> \<open>the decorator: what the wrapped function returns or raises becomes a string\<close>
  \<open>safe_response result =
     (case result of
        Inr (PStr s) \<Rightarrow> s
      | Inr _ \<Rightarrow> ''Error: Invalid response type from function''
      | Inl e \<Rightarrow> ''I apologize, but I encountered an error while processing your request. Please try again with a simpler query.'')\<close>

definition merge_context :: "env \<Rightarrow> string \<Rightarrow> pyval \<Rightarrow> py_error + string" where
  \<comment> \<open>the first step: the formatted database data joins the context\<close>
  "merge_context e context db_data =
     (if truthy db_data
      then (case format_db_data_for_llm (str_of e) db_data of
              Inl err \<Rightarrow> Inl err
            | Inr db_context \<Rightarrow>
                Inr (if context \<noteq> [] then context @ [nl, nl] @ db_context else db_context))
      else Inr context)"

definition llm_response_body ::
  "env \<Rightarrow> world \<Rightarrow> string \<Rightarrow> string \<Rightarrow> string \<Rightarrow> string \<Rightarrow> pyval \<Rightarrow> (py_error + pyval) \<times> world" where
  \<comment> \<open>the body of \<open>get_llm_response\<close>: the outer \<open>except\<close> returns the apology, the inner one
      falls through to the simulated responder\<close>
  "llm_response_body e w prompt context system_prompt conversation_history_json db_data =
     (case merge_context e context db_data of
        Inl err \<Rightarrow> (Inr (PStr technical_difficulties), w)
      | Inr context \<Rightarrow>
          if DEPENDENCIES_INSTALLED e
          then (case get_azure_client e w of
                  (Some client, w) \<Rightarrow>
                    (case chat_completion e client
                            (build_messages e prompt context system_prompt conversation_history_json) of
                       Content (PStr response) \<Rightarrow> (Inr (PStr (enhance_response_formatting response)), w)
                     | _ \<Rightarrow> (Inr (PStr (get_simulated_response prompt context)), w))
                | (None, w) \<Rightarrow> (Inr (PStr (get_simulated_response prompt context)), w))
          else (Inr (PStr (get_simulated_response prompt context)), w))"

definition get_llm_response ::
  "env \<Rightarrow> world \<Rightarrow> string \<Rightarrow> string \<Rightarrow> string \<Rightarrow> string \<Rightarrow> pyval \<Rightarrow> string \<times> world" where
  "get_llm_response e w prompt context system_prompt conversation_history_json db_data =
     (case llm_response_body e w prompt context system_prompt conversation_history_json db_data of
        (result, w) \<Rightarrow> (safe_response result, w))"

section \<open>A sample environment\<close>

text \<open>
  Concrete values for the environment and the world, at which the theorems below are
  instantiated: the dependencies are installed, the token endpoint answers with a token
  record, the cache file can be written, and the completion endpoint fails.
\<close>

definition sample_token :: pyval where
  "sample_token = PDict [(''access_token'', PStr ''tok''), (''expires_in'', PInt 3600)]"

definition sample_env :: env where
  "sample_env =
     \<lparr>DEPENDENCIES_INSTALLED = True, time_at_check = 100, time_at_stamp = 101,
      token_response = Body sample_token, write_ok = True,
      token_url = ''https://token'', client_id = ''id'', client_secret = ''secret'',
      client_ok = True, default_system_prompt = ''You are a helpful AI assistant.'',
      json_loads = (\<lambda>s. None), chat_completion = (\<lambda>c ms. ApiFails), str_of = (\<lambda>v. [])\<rparr>"

definition empty_world :: world where
  "empty_world = \<lparr>cache_file = Absent, requests_sent = []\<rparr>"

section \<open>Lemmas about strings\<close>

lemmas lower_eval = lower_def lower_char_def char_of_def bit_Suc_0_iff

lemma contains_sublist: "contains sub s \<longleftrightarrow> sublist sub s"
  by (induction s) (auto simp: sublist_Cons_right)

lemma split_nl_not_Nil: "split_nl s \<noteq> []"
  by (induction s) (auto split: list.splits)

lemma join_nl_Cons: "ls \<noteq> [] \<Longrightarrow> join_nl (l # ls) = l @ nl # join_nl ls"
  by (cases ls) auto

lemma join_split_nl: "join_nl (split_nl s) = s"
proof (induction s)
  case Nil
  show ?case by simp
next
  case (Cons c cs)
  show ?case
  proof (cases "c = nl")
    case True
    with Cons show ?thesis by (simp add: join_nl_Cons split_nl_not_Nil)
  next
    case False
    obtain l ls where sp: "split_nl cs = l # ls"
      using split_nl_not_Nil [of cs] by (cases "split_nl cs") auto
    from Cons sp have "cs = join_nl (l # ls)" by simp
    moreover have "join_nl ((c # l) # ls) = c # join_nl (l # ls)" by (cases ls) auto
    ultimately show ?thesis using False sp by simp
  qed
qed

lemma lower_char_eq_colon: "lower_char c = CHR '':'' \<longleftrightarrow> c = CHR '':''"
proof
  assume h: "lower_char c = CHR '':''"
  show "c = CHR '':''"
  proof (rule ccontr)
    assume n: "c \<noteq> CHR '':''"
    with h have u: "(65 \<le> (of_char c :: nat) \<and> (of_char c :: nat) \<le> 90) \<or> (192 \<le> (of_char c :: nat) \<and> (of_char c :: nat) \<le> 214) \<or> (216 \<le> (of_char c :: nat) \<and> (of_char c :: nat) \<le> 222)"
      and "char_of ((of_char c :: nat) + 32) = CHR '':''"
      by (auto simp: lower_char_def Let_def split: if_splits)
    then have "(of_char (char_of ((of_char c :: nat) + 32)) :: nat) = of_char (CHR '':'')" by simp
    then have "((of_char c :: nat) + 32) mod 256 = 58" by simp
    with u show False by auto
  qed
next
  assume "c = CHR '':''" then show "lower_char c = CHR '':''" by (simp add: lower_char_def)
qed


lemma lower_append: "lower (a @ b) = lower a @ lower b" by (simp add: lower_def)
lemma lower_Cons: "lower (c # cs) = lower_char c # lower cs" by (simp add: lower_def)
lemma lower_Nil: "lower [] = []" by (simp add: lower_def)
lemma length_lower: "length (lower s) = length s" by (simp add: lower_def)
lemma lower_colon: "lower_char (CHR '':'') = CHR '':''" by (simp add: lower_char_def)
lemma colon_lower: "CHR '':'' \<in> set (lower s) \<longleftrightarrow> CHR '':'' \<in> set s"
proof -
  have "CHR '':'' \<in> set (lower s) \<longleftrightarrow> (\<exists>x\<in>set s. lower_char x = CHR '':'')"
    unfolding lower_def set_map image_iff by metis
  then show ?thesis by (simp add: lower_char_eq_colon)
qed

lemma prefix_take_iff: "prefix p s \<longleftrightarrow> length p \<le> length s \<and> take (length p) s = p"
  by (metis prefix_length_le take_is_prefix append_eq_conv_conj prefix_def)

lemma keyword_match_iff:
  "keyword_match kw prev s \<noteq> None \<longleftrightarrow> prefix (lower kw @ '':'') (lower s)"
  by (auto simp: keyword_match_def Let_def prefix_take_iff lower_append lower_Cons lower_Nil
      lower_colon length_lower lower_def take_map)

lemma keyword_match_prev: "keyword_match kw prev s = keyword_match kw None s"
  by (simp add: keyword_match_def)

lemma re_sub_keyword_prev:
  "re_sub (keyword_match kw) r prev s = re_sub (keyword_match kw) r None s"
  by (cases s) (simp_all add: keyword_match_prev [of kw prev])

lemma highlight_Nil: "highlight kw [] = []"
  by (simp add: highlight_def)

lemma highlight_no_match:
  "\<not> prefix (lower kw @ '':'') (lower (c # cs)) \<Longrightarrow> highlight kw (c # cs) = c # highlight kw cs"
  using keyword_match_iff [of kw None "c # cs"] re_sub_keyword_prev [of kw _ "Some c" cs]
  by (auto simp: highlight_def)

lemma highlight_absent:
  "\<not> contains (lower kw @ '':'') (lower s) \<Longrightarrow> highlight kw s = s"
  by (induction s) (auto simp: highlight_Nil highlight_no_match lower_Cons)

lemma highlight_no_colon:
  assumes "CHR '':'' \<notin> set s"
  shows "highlight kw s = s"
proof (rule highlight_absent)
  show "\<not> contains (lower kw @ '':'') (lower s)"
  proof
    assume "contains (lower kw @ '':'') (lower s)"
    then have "sublist (lower kw @ '':'') (lower s)"
      by (simp add: contains_sublist)
    then have "set (lower kw @ '':'') \<subseteq> set (lower s)"
      by (rule set_mono_sublist)
    then have "CHR '':'' \<in> set (lower s)" by auto
    with assms show False by (simp add: colon_lower)
  qed
qed

lemma prefix_colon_aligned:
  assumes "prefix (L @ [c]) (X @ c # Y)" and "c \<notin> set L" and "c \<notin> set X"
  shows "L = X"
  using assms
proof (induction L arbitrary: X)
  case Nil
  then show ?case by (cases X) auto
next
  case (Cons l L)
  then show ?case by (cases X) auto
qed

lemma highlight_skip_colon:
  assumes "CHR '':'' \<notin> set A" and "CHR '':'' \<notin> set kw" and "\<not> suffix (lower kw) (lower A)"
  shows "highlight kw (A @ CHR '':'' # B) = A @ CHR '':'' # highlight kw B"
  using assms
proof (induction A)
  case Nil
  then have "kw \<noteq> []" by auto
  then obtain k ks where kw: "kw = k # ks" by (cases kw) auto
  with Nil have "lower_char k \<noteq> CHR '':''" by (auto simp: lower_char_eq_colon)
  then have "\<not> prefix (lower kw @ '':'') (lower (CHR '':'' # B))"
    by (simp add: kw lower_Cons lower_colon)
  then show ?case by (simp add: highlight_no_match)
next
  case (Cons a A)
  have "\<not> prefix (lower kw @ '':'') (lower ((a # A) @ CHR '':'' # B))"
  proof
    assume "prefix (lower kw @ '':'') (lower ((a # A) @ CHR '':'' # B))"
    then have "prefix (lower kw @ [CHR '':'']) (lower (a # A) @ CHR '':'' # lower B)"
      by (simp add: lower_append lower_Cons lower_colon)
    then have "lower kw = lower (a # A)"
      using Cons.prems by (intro prefix_colon_aligned) (auto simp: colon_lower)
    with Cons.prems show False by simp
  qed
  then have "highlight kw ((a # A) @ CHR '':'' # B) = a # highlight kw (A @ CHR '':'' # B)"
    by (simp add: highlight_no_match)
  moreover have "\<not> suffix (lower kw) (lower A)"
    using Cons.prems(3) by (auto simp: lower_Cons suffix_Cons)
  ultimately show ?case using Cons by simp
qed

lemma highlight_skip_before:
  assumes "CHR '':'' \<notin> set (A @ u)" and "CHR '':'' \<notin> set kw" and "length u = length kw"
  shows "highlight kw (A @ u @ CHR '':'' # B) = A @ highlight kw (u @ CHR '':'' # B)"
  using assms
proof (induction A)
  case Nil
  show ?case by simp
next
  case (Cons a A)
  have "\<not> prefix (lower kw @ '':'') (lower ((a # A) @ u @ CHR '':'' # B))"
  proof
    assume "prefix (lower kw @ '':'') (lower ((a # A) @ u @ CHR '':'' # B))"
    then have "prefix (lower kw @ [CHR '':'']) (lower ((a # A) @ u) @ CHR '':'' # lower B)"
      by (simp add: lower_append lower_Cons lower_colon)
    then have "lower kw = lower ((a # A) @ u)"
      using Cons.prems by (intro prefix_colon_aligned) (auto simp: colon_lower)
    then have "length (lower kw) = length (lower ((a # A) @ u))" by simp
    with Cons.prems show False by (simp add: length_lower)
  qed
  then have "highlight kw ((a # A) @ u @ CHR '':'' # B) = a # highlight kw (A @ u @ CHR '':'' # B)"
    by (simp add: highlight_no_match)
  then show ?case using Cons by simp
qed

section \<open>Lemmas about keyword highlighting\<close>

lemma keyword_match_Some:
  assumes "prefix (lower kw @ '':'') (lower s)"
  shows "keyword_match kw prev s = Some (match_len kw s)"
proof -
  have "keyword_match kw prev s \<noteq> None"
    using keyword_match_iff [of kw prev s] assms by blast
  then show ?thesis
    unfolding keyword_match_def match_len_def Let_def by (auto split: if_splits)
qed

lemma match_len_bounds: "Suc (length kw) \<le> length s \<Longrightarrow> 0 < match_len kw s \<and> match_len kw s \<le> length s"
proof -
  assume a: "Suc (length kw) \<le> length s"
  have "length (takeWhile (\<lambda>c. c \<noteq> nl) (drop (Suc (length kw)) s)) \<le> length (drop (Suc (length kw)) s)"
    by (rule length_takeWhile_le)
  with a show ?thesis by (auto simp: match_len_def Let_def)
qed

lemma highlight_at_match:
  assumes "prefix (lower kw @ '':'') (lower s)"
  shows "highlight kw s = keyword_repl kw (take (match_len kw s) s) @ highlight kw (drop (match_len kw s) s)"
proof -
  from assms have "length (lower kw @ '':'') \<le> length (lower s)" by (rule prefix_length_le)
  then have len: "Suc (length kw) \<le> length s" by (simp add: length_lower)
  then obtain c cs where s: "s = c # cs" by (cases s) auto
  have b: "0 < match_len kw (c # cs)" "match_len kw (c # cs) \<le> Suc (length cs)"
    using match_len_bounds [OF len] by (simp_all add: s)
  have m: "keyword_match kw None (c # cs) = Some (match_len kw (c # cs))"
    using keyword_match_Some [OF assms, of None] by (simp add: s)
  have "re_sub (keyword_match kw) (keyword_repl kw) None (c # cs) =
        keyword_repl kw (take (match_len kw (c # cs)) (c # cs)) @
        re_sub (keyword_match kw) (keyword_repl kw) (Some (last (take (match_len kw (c # cs)) (c # cs))))
          (drop (match_len kw (c # cs)) (c # cs))"
    by (subst re_sub.simps) (simp only: m option.case b if_True simp_thms)
  then show ?thesis
    unfolding highlight_def s
    by (simp only: re_sub_keyword_prev [of kw "keyword_repl kw" "Some _"])
qed

lemma highlight_match_eol:
  assumes "lower u = lower kw" and "nl \<notin> set g2"
  shows "highlight kw (u @ CHR '':'' # g2) = ''**_'' @ u @ '':_** '' @ g2"
proof -
  let ?s = "u @ CHR '':'' # g2"
  from assms(1) have len: "length kw = length u" by (metis length_lower)
  have p: "prefix (lower kw @ '':'') (lower ?s)"
    by (simp add: lower_append lower_Cons lower_colon lower_Nil assms(1) [symmetric])
  have tw: "takeWhile (\<lambda>c. c \<noteq> nl) g2 = g2"
    using assms(2) by (auto simp: takeWhile_eq_all_conv)
  have n: "match_len kw ?s = length ?s"
    by (simp add: match_len_def Let_def len tw)
  have "highlight kw ?s = keyword_repl kw ?s @ highlight kw []"
    using highlight_at_match [OF p] unfolding n by simp
  then show ?thesis by (simp add: highlight_Nil keyword_repl_def len)
qed

lemma highlight_match_nl:
  assumes "lower u = lower kw" and "nl \<notin> set g2"
  shows "highlight kw (u @ CHR '':'' # g2 @ nl # T) = ''**_'' @ u @ '':_** '' @ g2 @ nl # highlight kw T"
proof -
  let ?s = "u @ CHR '':'' # g2 @ nl # T"
  let ?m = "u @ CHR '':'' # g2 @ [nl]"
  from assms(1) have len: "length kw = length u" by (metis length_lower)
  have p: "prefix (lower kw @ '':'') (lower ?s)"
    by (simp add: lower_append lower_Cons lower_colon lower_Nil assms(1) [symmetric])
  have tw: "takeWhile (\<lambda>c. c \<noteq> nl) (g2 @ nl # T) = g2"
    using assms(2) by (auto simp: takeWhile_tail)
  have n: "match_len kw ?s = length ?m"
    by (simp add: match_len_def Let_def len tw)
  have s: "?s = ?m @ T" by simp
  have gen: "\<And>m :: string. take (length m) (m @ T) = m \<and> drop (length m) (m @ T) = T" by simp
  have t: "take (length ?m) ?s = ?m" and d: "drop (length ?m) ?s = T"
    unfolding s using gen [of ?m] by blast+
  have "highlight kw ?s = keyword_repl kw ?m @ highlight kw T"
    using highlight_at_match [OF p] unfolding n t d .
  then show ?thesis by (simp add: keyword_repl_def len)
qed

subsection \<open>List markers\<close>

lemma re_sub_never:
  "(\<And>p t. m (Some p) t = None) \<Longrightarrow> re_sub m r (Some q) s = s"
  by (induction s arbitrary: q) simp_all

lemma numbered_match_Some: "numbered_match (Some p) t = None"
  by (simp add: numbered_match_def line_start_def Let_def)

lemma bullet_match_Some: "bullet_match (Some p) t = None"
  by (simp add: bullet_match_def line_start_def)

lemma numbered_match_bound: "numbered_match prev s = Some n \<Longrightarrow> 0 < n \<and> n \<le> length s"
proof -
  assume a: "numbered_match prev s = Some n"
  let ?ds = "takeWhile is_digit s"
  from a have n: "n = length ?ds + 2" and "\<exists>d sp r. drop (length ?ds) s = d # sp # r"
    by (auto simp: numbered_match_def Let_def split: if_splits list.splits)
  then obtain d sp r where "drop (length ?ds) s = d # sp # r" by blast
  then have "length (drop (length ?ds) s) \<ge> 2" by simp
  then show ?thesis using n by simp
qed

lemma bullet_match_bound: "bullet_match prev s = Some n \<Longrightarrow> 0 < n \<and> n \<le> length s"
  by (auto simp: bullet_match_def split: if_splits list.splits)

lemma re_sub_start_only:
  assumes never: "\<And>p t. m (Some p) t = None"
    and bound: "\<And>n. m None s = Some n \<Longrightarrow> 0 < n \<and> n \<le> length s"
  shows "re_sub m newline_before None s = (if m None s = None then s else nl # s)"
proof -
  have nv: "\<And>q t. re_sub m newline_before (Some q) t = t"
    by (rule re_sub_never) (rule never)
  show ?thesis
  proof (cases s)
  case Nil
  with bound have "m None s = None" by (cases "m None s") auto
  with Nil show ?thesis by simp
next
  case (Cons c cs)
  show ?thesis
  proof (cases "m None s")
    case None
    then show ?thesis using Cons by (simp add: nv)
  next
    case (Some n)
    with bound have "0 < n \<and> n \<le> Suc (length cs)" using Cons by auto
    then show ?thesis using Some Cons
      by (simp add: nv newline_before_def del: take_Suc_Cons drop_Suc_Cons)
  qed
qed
qed

lemma numbered_nl: "numbered_match None (nl # s) = None"
  by (simp add: numbered_match_def Let_def is_digit_def)

lemma bullet_nl: "bullet_match None (nl # s) = None"
  by (simp add: bullet_match_def split: list.splits)

lemma re_sub_numbered:
  "re_sub numbered_match newline_before None s = (if numbered_match None s = None then s else nl # s)"
  by (rule re_sub_start_only) (simp_all add: numbered_match_Some numbered_match_bound)

lemma re_sub_bullet:
  "re_sub bullet_match newline_before None s = (if bullet_match None s = None then s else nl # s)"
  by (rule re_sub_start_only) (simp_all add: bullet_match_Some bullet_match_bound)

subsection \<open>Fencing\<close>

lemma re_search_suffix: "re_search p s \<Longrightarrow> \<exists>t. suffix t s \<and> p t"
proof (induction s)
  case Nil
  then show ?case by auto
next
  case (Cons c cs)
  then show ?case by (auto simp: suffix_Cons intro: suffix_order.refl)
qed

lemma code_signature_prefix:
  "code_signature t \<Longrightarrow>
   prefix ''import'' t \<or> prefix ''def'' t \<or> prefix ''class'' t \<or> prefix ''function'' t"
  by (auto simp: code_signature_def import_head_def call_head_def)

lemma prefix_suffix_contains: "prefix w t \<Longrightarrow> suffix t s \<Longrightarrow> contains w s"
  unfolding contains_sublist by (meson prefix_imp_sublist suffix_imp_sublist sublist_order.order_trans)

lemma fence_code_no_words:
  assumes "\<not> contains ''import'' s" "\<not> contains ''def'' s" "\<not> contains ''class'' s"
    "\<not> contains ''function'' s"
  shows "fence_code s = s"
proof -
  have "\<not> re_search code_signature s"
  proof
    assume "re_search code_signature s"
    then obtain t where "suffix t s" "code_signature t" by (blast dest: re_search_suffix)
    with assms show False by (blast dest: code_signature_prefix prefix_suffix_contains)
  qed
  then show ?thesis by (simp add: fence_code_def)
qed

lemma fence_loop_plain:
  "\<forall>l\<in>set ls. \<not> code_signature (strip l) \<Longrightarrow> fence_loop False acc ls = (False, acc @ ls)"
  by (induction ls arbitrary: acc) simp_all

lemma fence_code_plain:
  assumes "\<forall>l\<in>set (split_nl s). \<not> code_signature (strip l)"
  shows "fence_code s = s"
  using fence_loop_plain [OF assms, of "[]"] by (simp add: fence_code_def join_split_nl)

subsection \<open>Keywords\<close>

lemma keyword_cases:
  "K \<in> set important_keywords \<Longrightarrow>
   K = ''IMPORTANT'' \<or> K = ''WARNING'' \<or> K = ''CRITICAL'' \<or> K = ''NOTE'' \<or> K = ''CAUTION''"
  by (auto simp: important_keywords_def)

lemma lower_keywords:
  "lower ''IMPORTANT'' = ''important''"
  "lower ''WARNING'' = ''warning''"
  "lower ''CRITICAL'' = ''critical''"
  "lower ''NOTE'' = ''note''"
  "lower ''CAUTION'' = ''caution''"
  by (simp_all add: lower_eval)

lemma keyword_letters:
  "K \<in> set important_keywords \<Longrightarrow> K \<noteq> [] \<and> set (lower K) \<subseteq> set ''abcdefghijklmnopqrstuvwxyz''"
  by (auto dest!: keyword_cases simp: lower_keywords)

lemma letter_facts:
  "c \<in> set ''abcdefghijklmnopqrstuvwxyz'' \<Longrightarrow>
   \<not> is_space c \<and> c \<noteq> CHR '':'' \<and> c \<noteq> nl \<and> c \<noteq> CHR ''*'' \<and> c \<noteq> CHR ''_'' \<and> c \<noteq> CHR '' ''"
  by (auto simp: is_space_def)

lemma is_space_lower: "is_space c \<Longrightarrow> lower_char c = c"
  by (auto simp: is_space_def lower_char_def Let_def)

lemma keyword_no_suffix:
  "K \<in> set important_keywords \<Longrightarrow> K' \<in> set important_keywords \<Longrightarrow> K' \<noteq> K \<Longrightarrow>
   \<not> suffix (lower K') (lower K)"
  by (auto dest!: keyword_cases simp: lower_keywords suffix_to_prefix)

lemma contains_skip:
  "P \<noteq> [] \<Longrightarrow> hd P \<notin> set A \<Longrightarrow> contains P (A @ X) \<longleftrightarrow> contains P X"
  by (induction A) (auto simp: prefix_Cons neq_Nil_conv)

lemma contains_snoc:
  assumes "c \<notin> set P" and "P \<noteq> []"
  shows "contains P (X @ [c]) \<longleftrightarrow> contains P X"
proof (induction X)
  case Nil
  from assms show ?case by (cases P) auto
next
  case (Cons x X)
  have "prefix P (x # X @ [c]) \<longleftrightarrow> prefix P (x # X)"
    using assms prefix_snoc [of P "x # X" c] by auto
  with Cons show ?case by simp
qed

lemma suffix_append_cases: "suffix x (A @ y) \<Longrightarrow> suffix x y \<or> suffix y x"
  by (auto simp: suffix_append)

lemma keyword_char:
  assumes "K \<in> set important_keywords" and "x \<in> set (lower K)"
  shows "\<not> is_space x" and "x \<noteq> CHR '':''" and "x \<noteq> nl" and "x \<noteq> CHR ''*''"
    and "x \<noteq> CHR ''_''" and "x \<noteq> CHR '' ''"
proof -
  from keyword_letters [OF assms(1)] assms(2) have "x \<in> set ''abcdefghijklmnopqrstuvwxyz''"
    by blast
  from letter_facts [OF this]
  show "\<not> is_space x" and "x \<noteq> CHR '':''" and "x \<noteq> nl" and "x \<noteq> CHR ''*''"
    and "x \<noteq> CHR ''_''" and "x \<noteq> CHR '' ''"
    by blast+
qed

lemma keyword_props:
  assumes "K \<in> set important_keywords" and "lower kw = lower K"
  shows "kw \<noteq> []" and "CHR '':'' \<notin> set kw" and "\<forall>c\<in>set kw. \<not> is_space c"
    and "CHR '':'' \<notin> set K"
proof -
  from keyword_letters [OF assms(1)] have K: "K \<noteq> []" by blast
  from assms(2) have "length kw = length K" by (metis length_lower)
  with K show "kw \<noteq> []" by auto
  have lc: "lower_char c \<in> set (lower K)" if "c \<in> set kw" for c
    using that assms(2) [symmetric] by (simp add: lower_def)
  show "CHR '':'' \<notin> set kw"
  proof
    assume "CHR '':'' \<in> set kw"
    from lc [OF this] have "CHR '':'' \<in> set (lower K)" by (simp add: lower_colon)
    with keyword_char(2) [OF assms(1)] show False by blast
  qed
  show "\<forall>c\<in>set kw. \<not> is_space c"
  proof (intro ballI notI)
    fix c assume c: "c \<in> set kw" and sp: "is_space c"
    from lc [OF c] is_space_lower [OF sp] have "c \<in> set (lower K)" by simp
    with keyword_char(1) [OF assms(1)] sp show False by blast
  qed
  show "CHR '':'' \<notin> set K"
  proof
    assume "CHR '':'' \<in> set K"
    then have "lower_char (CHR '':'') \<in> set (lower K)" by (simp add: lower_def)
    then have "CHR '':'' \<in> set (lower K)" by (simp add: lower_colon)
    with keyword_char(2) [OF assms(1)] show False by blast
  qed
qed

lemma highlight_other_keyword:
  assumes K: "K \<in> set important_keywords" and kw: "lower kw = lower K"
    and K': "K' \<in> set important_keywords" "K' \<noteq> K"
    and pre: "CHR '':'' \<notin> set pre"
    and tail: "\<not> contains (lower K' @ '':'') (lower tail)"
  shows "highlight K' (pre @ kw @ CHR '':'' # tail) = pre @ kw @ CHR '':'' # tail"
proof -
  have "\<not> suffix (lower K') (lower (pre @ kw))"
  proof
    assume "suffix (lower K') (lower (pre @ kw))"
    then have "suffix (lower K') (lower pre @ lower K)" by (simp add: lower_append kw)
    then have "suffix (lower K') (lower K) \<or> suffix (lower K) (lower K')"
      by (rule suffix_append_cases)
    with keyword_no_suffix [OF K K'] keyword_no_suffix [OF K'(1) K] K'(2) show False by auto
  qed
  moreover have "CHR '':'' \<notin> set (pre @ kw)"
    using pre keyword_props(2) [OF K kw] by simp
  moreover have "CHR '':'' \<notin> set K'"
    using keyword_props(4) [OF K'(1) refl] .
  ultimately have "highlight K' ((pre @ kw) @ CHR '':'' # tail) = (pre @ kw) @ CHR '':'' # highlight K' tail"
    by (intro highlight_skip_colon)
  with highlight_absent [OF tail] show ?thesis by simp
qed

lemma fold_highlight_id:
  "\<forall>k\<in>set ks. highlight k s = s \<Longrightarrow> fold highlight ks s = s"
  by (induction ks) simp_all

lemma fold_highlight_one:
  assumes "K \<in> set ks" and "distinct ks"
    and "\<And>K'. K' \<in> set ks \<Longrightarrow> K' \<noteq> K \<Longrightarrow> highlight K' s = s \<and> highlight K' b = b"
    and "highlight K s = b"
  shows "fold highlight ks s = b"
  using assms
proof (induction ks)
  case Nil
  then show ?case by simp
next
  case (Cons k ks)
  show ?case
  proof (cases "k = K")
    case True
    with Cons.prems have "\<forall>k'\<in>set ks. highlight k' b = b" by auto
    then have "fold highlight ks b = b" by (rule fold_highlight_id)
    with True Cons.prems(4) show ?thesis by simp
  next
    case False
    with Cons.prems have "highlight k s = s" and "K \<in> set ks" by auto
    moreover have "fold highlight ks s = b"
      using Cons.prems False by (intro Cons.IH) auto
    ultimately show ?thesis by simp
  qed
qed

lemma fold_highlight_line:
  assumes K: "K \<in> set important_keywords" and kw: "lower kw = lower K"
    and rest: "nl \<notin> set rest" and eol: "eol = [] \<or> eol = [nl]"
    and other: "\<forall>K'\<in>set important_keywords. K' \<noteq> K \<longrightarrow> \<not> contains (lower K' @ '':'') (lower rest)"
  shows "fold highlight important_keywords (kw @ '':'' @ rest @ eol) = ''**_'' @ kw @ '':_** '' @ rest @ eol"
proof (rule fold_highlight_one [OF K])
  show "distinct important_keywords" by (simp add: important_keywords_def)
  show "highlight K (kw @ '':'' @ rest @ eol) = ''**_'' @ kw @ '':_** '' @ rest @ eol"
    using eol highlight_match_eol [OF kw rest] highlight_match_nl [OF kw rest, of "[]"]
    by (auto simp: highlight_Nil)
next
  fix K' assume K': "K' \<in> set important_keywords" "K' \<noteq> K"
  from keyword_letters [OF K'(1)] obtain k ks where lk: "lower K' = k # ks"
    by (cases "lower K'") (auto simp: lower_def)
  then have kin: "k \<in> set (lower K')" by simp
  have knl: "k \<noteq> nl" "k \<noteq> CHR ''*''" "k \<noteq> CHR ''_''" "k \<noteq> CHR '' ''"
    using keyword_char [OF K'(1) kin] by blast+
  have "nl \<notin> set (lower K')" using keyword_char(3) [OF K'(1)] by blast
  then have P: "lower K' @ '':'' \<noteq> []" "nl \<notin> set (lower K' @ '':'')"
    by simp_all
  from other K' have r: "\<not> contains (lower K' @ '':'') (lower rest)" by blast
  have lnl: "lower [nl] = [nl]" by (simp add: lower_eval)
  from r eol have t1: "\<not> contains (lower K' @ '':'') (lower (rest @ eol))"
    using contains_snoc [OF P(2) P(1), of "lower rest"] by (auto simp: lower_append lnl lower_Nil)
  have l2: "lower (''_** '' @ X) = ''_** '' @ lower X" for X by (simp add: lower_eval)
  have "contains (lower K' @ '':'') (''_** '' @ lower (rest @ eol)) \<longleftrightarrow>
        contains (lower K' @ '':'') (lower (rest @ eol))"
    using knl by (intro contains_skip) (auto simp: lk)
  with t1 have t2: "\<not> contains (lower K' @ '':'') (lower (''_** '' @ rest @ eol))"
    using l2 [of "rest @ eol"] by (simp del: contains.simps)
  have a: "highlight K' ([] @ kw @ CHR '':'' # rest @ eol) = [] @ kw @ CHR '':'' # rest @ eol"
    by (rule highlight_other_keyword [OF K kw K' _ t1]) simp
  have b: "highlight K' (''**_'' @ kw @ CHR '':'' # ''_** '' @ rest @ eol) =
           ''**_'' @ kw @ CHR '':'' # ''_** '' @ rest @ eol"
    by (rule highlight_other_keyword [OF K kw K' _ t2]) simp
  from a b show "highlight K' (kw @ '':'' @ rest @ eol) = kw @ '':'' @ rest @ eol \<and>
        highlight K' (''**_'' @ kw @ '':_** '' @ rest @ eol) = ''**_'' @ kw @ '':_** '' @ rest @ eol"
    by simp
qed

lemma split_nl_no_nl: "nl \<notin> set s \<Longrightarrow> split_nl s = [s]"
  by (induction s) auto

lemma split_nl_append_nl: "nl \<notin> set s \<Longrightarrow> split_nl (s @ nl # t) = s # split_nl t"
  by (induction s) auto

lemma dropWhile_shorter: "length (dropWhile P r) < length r \<Longrightarrow> r \<noteq> [] \<and> P (hd r)"
  by (cases r) (auto split: if_splits)

lemma head_space:
  assumes "length (dropWhile is_space (drop n t)) < length (drop n t)"
  shows "n < length t \<and> is_space (t ! n)"
proof -
  from dropWhile_shorter [OF assms] have ne: "drop n t \<noteq> []" and sp: "is_space (hd (drop n t))"
    by blast+
  from ne have lt: "n < length t" by simp
  then have "hd (drop n t) = t ! n" by (rule hd_drop_conv_nth)
  with sp lt show ?thesis by simp
qed

lemma code_signature_space:
  assumes "code_signature t"
  shows "\<exists>w\<in>{''import'', ''def'', ''class'', ''function''}.
           prefix w t \<and> length w < length t \<and> is_space (t ! length w)"
proof -
  from assms consider "import_head t" | "call_head ''def'' t" | "call_head ''class'' t"
    | "call_head ''function'' t"
    by (auto simp: code_signature_def)
  then show ?thesis
  proof cases
    case 1
    then have p: "prefix ''import'' t"
      and l: "length (dropWhile is_space (drop 6 t)) < length (drop 6 t)"
      by (simp_all add: import_head_def Let_def)
    from head_space [OF l] p have "prefix ''import'' t \<and> length ''import'' < length t \<and>
        is_space (t ! length ''import'')" by (simp add: eval_nat_numeral)
    then show ?thesis by blast
  next
    case 2
    then have p: "prefix ''def'' t"
      and l: "length (dropWhile is_space (drop (length ''def'') t)) < length (drop (length ''def'') t)"
      by (simp_all add: call_head_def Let_def)
    from head_space [OF l] p have "prefix ''def'' t \<and> length ''def'' < length t \<and>
        is_space (t ! length ''def'')" by simp
    then show ?thesis by blast
  next
    case 3
    then have p: "prefix ''class'' t"
      and l: "length (dropWhile is_space (drop (length ''class'') t)) < length (drop (length ''class'') t)"
      by (simp_all add: call_head_def Let_def)
    from head_space [OF l] p have "prefix ''class'' t \<and> length ''class'' < length t \<and>
        is_space (t ! length ''class'')" by simp
    then show ?thesis by blast
  next
    case 4
    then have p: "prefix ''function'' t"
      and l: "length (dropWhile is_space (drop (length ''function'') t)) < length (drop (length ''function'') t)"
      by (simp_all add: call_head_def Let_def)
    from head_space [OF l] p have "prefix ''function'' t \<and> length ''function'' < length t \<and>
        is_space (t ! length ''function'')" by simp
    then show ?thesis by blast
  qed
qed

lemma prefix_nth: "prefix p t \<Longrightarrow> i < length p \<Longrightarrow> t ! i = p ! i"
  by (auto simp: prefix_def nth_append)

lemma colon_not_space: "\<not> is_space (CHR '':'')"
  by (simp add: is_space_def)

lemma no_signature_after_keyword:
  assumes p: "prefix (kw @ '':'') t" and ns: "\<forall>c\<in>set kw. \<not> is_space c"
  shows "\<not> code_signature t"
proof
  assume "code_signature t"
  from code_signature_space [OF this] obtain w
    where w: "w \<in> {''import'', ''def'', ''class'', ''function''}"
      and pw: "prefix w t" and sp: "is_space (t ! length w)" by blast
  show False
  proof (cases "length w \<le> length kw")
    case True
    then have "t ! length w = (kw @ '':'') ! length w"
      using prefix_nth [OF p, of "length w"] by simp
    moreover have "(kw @ '':'') ! length w \<in> set (kw @ '':'')"
      using True by (intro nth_mem) simp
    ultimately show False using sp ns colon_not_space by auto
  next
    case False
    then have l: "length kw < length w" by simp
    have "w ! length kw = t ! length kw" using prefix_nth [OF pw l] by simp
    also have "\<dots> = (kw @ '':'') ! length kw" using prefix_nth [OF p, of "length kw"] by simp
    also have "\<dots> = CHR '':''" by simp
    finally have "CHR '':'' \<in> set w" using l by (metis nth_mem)
    with w show False by auto
  qed
qed

lemma strip_keeps_prefix:
  assumes "a \<noteq> []" and "\<not> is_space (hd a)" and "\<not> is_space (last a)"
  shows "prefix a (strip (a @ b))"
proof -
  from assms(1,2) have d1: "dropWhile is_space (a @ b) = a @ b" by (cases a) auto
  from assms(1,3) have d2: "dropWhile is_space (rev a) = rev a"
    by (cases "rev a") (auto simp: last_rev [symmetric] simp del: last_rev)
  have "\<exists>Y. dropWhile is_space (rev b @ rev a) = Y @ rev a"
    by (simp add: dropWhile_append d2)
  then obtain Y where "dropWhile is_space (rev (a @ b)) = Y @ rev a" by auto
  then have "strip (a @ b) = a @ rev Y" by (simp add: strip_def d1)
  then show ?thesis by simp
qed

lemma keyword_line_no_signature:
  assumes K: "K \<in> set important_keywords" and kw: "lower kw = lower K"
  shows "\<not> code_signature (strip (kw @ '':'' @ rest))"
proof -
  from keyword_props [OF K kw] have ne: "kw \<noteq> []" and ns: "\<forall>c\<in>set kw. \<not> is_space c" by blast+
  have "prefix (kw @ '':'') (strip ((kw @ '':'') @ rest))"
    using ne ns colon_not_space by (intro strip_keeps_prefix) (auto simp: hd_append)
  then show ?thesis using no_signature_after_keyword [OF _ ns] by simp
qed

lemma no_signature_empty: "\<not> code_signature (strip [])"
  by (simp add: strip_def code_signature_def import_head_def call_head_def)

section \<open>Lemmas about the response formatter\<close>

lemma enhance_cases:
  "enhance_response_formatting s =
     (let t = fold highlight important_keywords (fence_code s)
      in if numbered_match None t = None \<and> bullet_match None t = None then t else nl # t)"
  by (simp add: enhance_response_formatting_def Let_def re_sub_numbered re_sub_bullet bullet_nl)

lemma no_marker_star:
  "numbered_match None (CHR ''*'' # s) = None" "bullet_match None (CHR ''*'' # s) = None"
  by (simp_all add: numbered_match_def bullet_match_def is_digit_def Let_def split: list.splits)

lemma lower_nl: "lower_char nl = nl"
  by (simp add: lower_char_def)

lemma enhance_keyword_line:
  assumes K: "K \<in> set important_keywords" and kw: "lower kw = lower K"
    and rest: "nl \<notin> set rest" and eol: "eol = [] \<or> eol = [nl]"
    and other: "\<forall>K'\<in>set important_keywords. K' \<noteq> K \<longrightarrow> \<not> contains (lower K' @ '':'') (lower rest)"
  shows "enhance_response_formatting (kw @ '':'' @ rest @ eol) = ''**_'' @ kw @ '':_** '' @ rest @ eol"
proof -
  let ?line = "kw @ '':'' @ rest"
  have "nl \<notin> set kw"
  proof
    assume "nl \<in> set kw"
    then have "lower_char nl \<in> set (lower kw)" by (simp add: lower_def)
    then have "nl \<in> set (lower K)" by (simp add: lower_nl kw)
    with keyword_char(3) [OF K] show False by blast
  qed
  with rest have nonl: "nl \<notin> set ?line" by simp
  have "split_nl (?line @ eol) = [?line] \<or> split_nl (?line @ eol) = [?line, []]"
    using eol split_nl_no_nl [OF nonl] split_nl_append_nl [OF nonl, of "[]"] by auto
  then have "\<forall>l\<in>set (split_nl (?line @ eol)). \<not> code_signature (strip l)"
    using keyword_line_no_signature [OF K kw, of rest] no_signature_empty by auto
  then have "fence_code (?line @ eol) = ?line @ eol" by (rule fence_code_plain)
  then have f: "fence_code (kw @ '':'' @ rest @ eol) = kw @ '':'' @ rest @ eol" by simp
  show ?thesis
    unfolding enhance_cases f fold_highlight_line [OF K kw rest eol other]
    by (simp add: no_marker_star)
qed

lemma enhance_nested_keywords:
  "enhance_response_formatting ''NOTE: WARNING: x'' = ''**_NOTE:_**  **_WARNING:_**  x''"
proof -
  have f: "fence_code ''NOTE: WARNING: x'' = ''NOTE: WARNING: x''"
    by (rule fence_code_no_words) simp_all
  have h1: "highlight ''IMPORTANT'' ''NOTE: WARNING: x'' = ''NOTE: WARNING: x''"
    by (rule highlight_absent) (simp add: lower_eval)
  have h2: "highlight ''WARNING'' ''NOTE: WARNING: x'' = ''NOTE: **_WARNING:_**  x''"
    using highlight_skip_colon [of "''NOTE''" "''WARNING''" "'' WARNING: x''"]
      highlight_skip_before [of "'' ''" "''WARNING''" "''WARNING''" "'' x''"]
      highlight_match_eol [of "''WARNING''" "''WARNING''" "'' x''"]
    by (simp add: lower_eval suffix_to_prefix)
  have h3: "highlight ''CRITICAL'' ''NOTE: **_WARNING:_**  x'' = ''NOTE: **_WARNING:_**  x''"
    by (rule highlight_absent) (simp add: lower_eval)
  have h4: "highlight ''NOTE'' ''NOTE: **_WARNING:_**  x'' = ''**_NOTE:_**  **_WARNING:_**  x''"
    using highlight_match_eol [of "''NOTE''" "''NOTE''" "'' **_WARNING:_**  x''"]
    by simp
  have h5: "highlight ''CAUTION'' ''**_NOTE:_**  **_WARNING:_**  x'' = ''**_NOTE:_**  **_WARNING:_**  x''"
    by (rule highlight_absent) (simp add: lower_eval)
  have "fold highlight important_keywords ''NOTE: WARNING: x'' = ''**_NOTE:_**  **_WARNING:_**  x''"
    by (simp only: important_keywords_def fold_simps h1 h2 h3 h4 h5)
  then show ?thesis
    unfolding enhance_cases f by (simp add: no_marker_star)
qed

lemma enhance_note:
  "enhance_response_formatting ''NOTE: x'' = ''**_NOTE:_**  x''"
  using enhance_keyword_line [of "''NOTE''" "''NOTE''" "'' x''" "[]"]
  by (simp add: important_keywords_def lower_eval)

lemma enhance_note_again:
  "enhance_response_formatting ''**_NOTE:_**  x'' = ''**_**_NOTE:_** _**  x''"
proof -
  have f: "fence_code ''**_NOTE:_**  x'' = ''**_NOTE:_**  x''"
    by (rule fence_code_no_words) simp_all
  have h1: "highlight ''IMPORTANT'' ''**_NOTE:_**  x'' = ''**_NOTE:_**  x''"
    by (rule highlight_absent) (simp add: lower_eval)
  have h2: "highlight ''WARNING'' ''**_NOTE:_**  x'' = ''**_NOTE:_**  x''"
    by (rule highlight_absent) (simp add: lower_eval)
  have h3: "highlight ''CRITICAL'' ''**_NOTE:_**  x'' = ''**_NOTE:_**  x''"
    by (rule highlight_absent) (simp add: lower_eval)
  have h4: "highlight ''NOTE'' ''**_NOTE:_**  x'' = ''**_**_NOTE:_** _**  x''"
    using highlight_skip_before [of "''**_''" "''NOTE''" "''NOTE''" "''_**  x''"]
      highlight_match_eol [of "''NOTE''" "''NOTE''" "''_**  x''"]
    by simp
  have h5: "highlight ''CAUTION'' ''**_**_NOTE:_** _**  x'' = ''**_**_NOTE:_** _**  x''"
    by (rule highlight_absent) (simp add: lower_eval)
  have "fold highlight important_keywords ''**_NOTE:_**  x'' = ''**_**_NOTE:_** _**  x''"
    by (simp only: important_keywords_def fold_simps h1 h2 h3 h4 h5)
  then show ?thesis
    unfolding enhance_cases f by (simp add: no_marker_star)
qed

lemma enhance_plain:
  assumes nosig: "\<forall>l\<in>set (split_nl s). \<not> code_signature (strip l)"
    and nokw: "\<forall>K\<in>set important_keywords. \<not> contains (lower (K @ '':'')) (lower s)"
  shows "enhance_response_formatting s =
         (if numbered_match None s = None \<and> bullet_match None s = None then s else nl # s)"
proof -
  have f: "fence_code s = s" using nosig by (rule fence_code_plain)
  have "\<forall>K\<in>set important_keywords. highlight K s = s"
    using nokw by (auto intro!: highlight_absent simp: lower_append lower_Cons lower_Nil lower_colon)
  then have "fold highlight important_keywords s = s" by (rule fold_highlight_id)
  then show ?thesis unfolding enhance_cases f by (simp add: Let_def)
qed

lemma enhance_idempotent_plain:
  assumes nosig: "\<forall>l\<in>set (split_nl s). \<not> code_signature (strip l)"
    and nokw: "\<forall>K\<in>set important_keywords. \<not> contains (lower (K @ '':'')) (lower s)"
  shows "enhance_response_formatting (enhance_response_formatting s) = enhance_response_formatting s"
proof (cases "numbered_match None s = None \<and> bullet_match None s = None")
  case True
  then have "enhance_response_formatting s = s" using enhance_plain [OF assms] by simp
  then show ?thesis by simp
next
  case False
  then have e: "enhance_response_formatting s = nl # s" using enhance_plain [OF assms] by simp
  have nosig': "\<forall>l\<in>set (split_nl (nl # s)). \<not> code_signature (strip l)"
    using nosig no_signature_empty by simp
  have nokw': "\<forall>K\<in>set important_keywords. \<not> contains (lower (K @ '':'')) (lower (nl # s))"
  proof
    fix K assume K: "K \<in> set important_keywords"
    from keyword_letters [OF K] obtain k ks where lk: "lower K = k # ks"
      by (cases "lower K") (auto simp: lower_def)
    then have "k \<in> set (lower K)" by simp
    from keyword_char(3) [OF K this] have "hd (lower (K @ '':'')) \<notin> set [nl]"
      by (simp add: lower_append lk)
    moreover have "lower (K @ '':'') \<noteq> []" by (simp add: lower_def)
    ultimately have "contains (lower (K @ '':'')) ([nl] @ lower s) \<longleftrightarrow> contains (lower (K @ '':'')) (lower s)"
      by (intro contains_skip)
    with nokw K show "\<not> contains (lower (K @ '':'')) (lower (nl # s))"
      by (simp add: lower_Cons lower_nl del: contains.simps)
  qed
  have "enhance_response_formatting (nl # s) = nl # s"
    using enhance_plain [OF nosig' nokw'] by (simp add: numbered_nl bullet_nl)
  with e show ?thesis by simp
qed

subsection \<open>The formatter never shortens\<close>

lemma re_sub_length:
  "\<forall>x. length x \<le> length (r x) \<Longrightarrow> length s \<le> length (re_sub m r prev s)"
proof (induction m r prev s rule: re_sub.induct)
  case (1 m r prev)
  show ?case by simp
next
  case (2 m r prev c cs)
  show ?case
  proof (cases "m prev (c # cs)")
    case None
    with "2.IH"(1) "2.prems" show ?thesis by simp
  next
    case (Some n)
    show ?thesis
    proof (cases "0 < n \<and> n \<le> Suc (length cs)")
      case True
      from "2.IH"(2) [OF Some True "2.prems"]
      have "length (drop n (c # cs)) \<le>
            length (re_sub m r (Some (last (take n (c # cs)))) (drop n (c # cs)))" .
      moreover have "length (take n (c # cs)) \<le> length (r (take n (c # cs)))"
        using "2.prems" by blast
      moreover have "length (c # cs) = length (take n (c # cs)) + length (drop n (c # cs))"
        by (metis append_take_drop_id length_append)
      ultimately have "length (c # cs) \<le> length (r (take n (c # cs)) @
            re_sub m r (Some (last (take n (c # cs)))) (drop n (c # cs)))"
        by simp
      then show ?thesis using Some True by (simp del: take_Suc_Cons drop_Suc_Cons)
    next
      case False
      with "2.IH"(3) [OF Some False "2.prems"] Some show ?thesis by auto
    qed
  qed
qed

lemma keyword_repl_length: "length x \<le> length (keyword_repl kw x)"
proof -
  have "length x = length (take (Suc (length kw)) x) + length (drop (Suc (length kw)) x)"
    by (metis append_take_drop_id length_append)
  then show ?thesis unfolding keyword_repl_def by simp
qed

lemma highlight_length: "length s \<le> length (highlight kw s)"
  unfolding highlight_def by (rule re_sub_length) (simp add: keyword_repl_length)

lemma fold_highlight_length: "length s \<le> length (fold highlight ks s)"
proof (induction ks arbitrary: s)
  case Nil
  show ?case by simp
next
  case (Cons k ks)
  have "length s \<le> length (highlight k s)" by (rule highlight_length)
  also have "\<dots> \<le> length (fold highlight ks (highlight k s))" by (rule Cons)
  finally show ?case by simp
qed

lemma length_join_nl: "Suc (length (join_nl ls)) = sum_list (map length ls) + length ls \<or> ls = []"
  by (induction ls rule: join_nl.induct) auto

lemma fence_loop_grows:
  "fence_loop b acc ls = (b', out) \<Longrightarrow>
   sum_list (map length (acc @ ls)) \<le> sum_list (map length out) \<and> length (acc @ ls) \<le> length out"
proof (induction ls arbitrary: b acc)
  case Nil
  then show ?case by simp
next
  case (Cons l ls)
  show ?case
  proof (cases "code_signature (strip l) \<and> \<not> b")
    case True
    with Cons.prems have "fence_loop True (acc @ [''```python'', l]) ls = (b', out)" by simp
    from Cons.IH [OF this] show ?thesis by simp
  next
    case False
    show ?thesis
    proof (cases "b \<and> strip l = [] \<and> length acc > 0")
      case True
      with False Cons.prems have "fence_loop False (acc @ [''```'', l]) ls = (b', out)" by simp
      from Cons.IH [OF this] show ?thesis by simp
    next
      case F2: False
      with False Cons.prems have "fence_loop b (acc @ [l]) ls = (b', out)" by auto
      from Cons.IH [OF this] show ?thesis by simp
    qed
  qed
qed

lemma fence_code_length: "length s \<le> length (fence_code s)"
proof (cases "\<not> contains ''```'' s \<and> re_search code_signature s")
  case False
  then show ?thesis by (auto simp: fence_code_def)
next
  case True
  obtain b out where fl: "fence_loop False [] (split_nl s) = (b, out)" by force
  let ?out = "if b then out @ [''```''] else out"
  from fence_loop_grows [OF fl]
  have g: "sum_list (map length (split_nl s)) \<le> sum_list (map length ?out)"
    "length (split_nl s) \<le> length ?out" by auto
  have ne: "split_nl s \<noteq> []" by (rule split_nl_not_Nil)
  with g(2) have ne': "?out \<noteq> []" by auto
  from length_join_nl [of "split_nl s"] ne
  have "Suc (length s) = sum_list (map length (split_nl s)) + length (split_nl s)"
    by (simp add: join_split_nl)
  moreover from length_join_nl [of ?out] ne'
  have "Suc (length (join_nl ?out)) = sum_list (map length ?out) + length ?out" by blast
  ultimately have "length s \<le> length (join_nl ?out)" using g by linarith
  with True fl show ?thesis by (simp add: fence_code_def)
qed

lemma enhance_length: "length s \<le> length (enhance_response_formatting s)"
proof -
  have "length s \<le> length (fence_code s)" by (rule fence_code_length)
  also have "\<dots> \<le> length (fold highlight important_keywords (fence_code s))"
    by (rule fold_highlight_length)
  finally show ?thesis unfolding enhance_cases by (simp add: Let_def)
qed

lemma enhance_nonempty: "s \<noteq> [] \<Longrightarrow> enhance_response_formatting s \<noteq> []"
  using enhance_length [of s] by auto

lemma enhance_fixed:
  assumes "\<not> contains ''import'' s" "\<not> contains ''def'' s" "\<not> contains ''class'' s"
    "\<not> contains ''function'' s"
    and "CHR '':'' \<notin> set s"
    and "numbered_match None s = None" and "bullet_match None s = None"
  shows "enhance_response_formatting s = s"
proof -
  have f: "fence_code s = s" using assms(1-4) by (rule fence_code_no_words)
  have "fold highlight important_keywords s = s"
    by (rule fold_highlight_id) (simp add: highlight_no_colon [OF assms(5)])
  then show ?thesis unfolding enhance_cases f using assms(6,7) by (simp add: Let_def)
qed

lemmas marker_eval = numbered_match_def bullet_match_def is_digit_def is_space_def line_start_def Let_def

lemma enhance_default: "enhance_response_formatting default_response = default_response"
  by (rule enhance_fixed) (simp_all add: default_response_def marker_eval)

lemma enhance_drive: "enhance_response_formatting drive_info = drive_info"
  by (rule enhance_fixed) (simp_all add: drive_info_def marker_eval)

lemma contains_trans: "contains a b \<Longrightarrow> contains b c \<Longrightarrow> contains a c"
  unfolding contains_sublist by (rule sublist_order.order_trans)

lemma default_marker: "contains ''I don't have specific information'' default_response"
  by (simp add: default_response_def)

lemma drive_no_marker: "\<not> contains ''I don't have specific information'' drive_info"
  by (simp add: drive_info_def)

section \<open>Properties of the response formatter\<close>

text \<open>
  C7 (amended). A response that is one line \<open>KEYWORD: rest\<close>, with or without a final
  newline, where \<open>KEYWORD\<close> is one of IMPORTANT, WARNING, CRITICAL, NOTE, CAUTION in any
  mixture of cases and \<open>rest\<close> contains no other of these keywords followed by a colon,
  is rewritten to \<open>**_KEYWORD:_** rest\<close>: the keyword and its colon are wrapped, a space is
  put behind them, and the rest and the end of the line are unchanged.
\<close>

theorem keyword_line_emphasis:
  assumes "K \<in> set important_keywords" and "lower kw = lower K"
    and "nl \<notin> set rest" and "eol = [] \<or> eol = [nl]"
    and "\<forall>K'\<in>set important_keywords. K' \<noteq> K \<longrightarrow> \<not> contains (lower (K' @ '':'')) (lower rest)"
  shows "enhance_response_formatting (kw @ '':'' @ rest @ eol) = ''**_'' @ kw @ '':_** '' @ rest @ eol"
  using assms by (intro enhance_keyword_line) (auto simp: lower_append lower_Cons lower_Nil lower_colon)

theorem keyword_line_emphasis_witness:
  "''WARNING'' \<in> set important_keywords \<and> lower ''Warning'' = lower ''WARNING'' \<and>
   nl \<notin> set '' hot'' \<and>
   list_all (\<lambda>K'. K' = ''WARNING'' \<or> \<not> contains (lower (K' @ '':'')) (lower '' hot''))
     important_keywords \<and>
   enhance_response_formatting (''Warning'' @ '':'' @ '' hot'' @ [nl]) =
     ''**_'' @ ''Warning'' @ '':_** '' @ '' hot'' @ [nl]"
  using keyword_line_emphasis [of "''WARNING''" "''Warning''" "'' hot''" "[nl]"]
  by (simp add: important_keywords_def lower_eval)

text \<open>
  Without the condition on \<open>rest\<close> the claim fails: another keyword behind the colon is
  wrapped by its own pass, so the rest of the line is changed.
\<close>

theorem keyword_line_emphasis_counterexample:
  "''NOTE'' \<in> set important_keywords \<and>
   enhance_response_formatting (''NOTE'' @ '':'' @ '' WARNING: x'') = ''**_NOTE:_**  **_WARNING:_**  x'' \<and>
   ''**_NOTE:_**  **_WARNING:_**  x'' \<noteq> ''**_'' @ ''NOTE'' @ '':_** '' @ '' WARNING: x''"
  using enhance_nested_keywords by (simp add: important_keywords_def)

text \<open>
  C6 (amended). On a response with no fence marker, no line that starts (after stripping)
  with a code signature, and no occurrence of one of the five keywords followed by a colon
  (in any mixture of cases), formatting twice gives the same as formatting once.
\<close>

theorem formatter_idempotent_without_keywords:
  assumes "\<not> contains ''```'' s"
    and "\<forall>l\<in>set (split_nl s). \<not> code_signature (strip l)"
    and "\<forall>K\<in>set important_keywords. \<not> contains (lower (K @ '':'')) (lower s)"
  shows "enhance_response_formatting (enhance_response_formatting s) = enhance_response_formatting s"
  using assms(2,3) by (rule enhance_idempotent_plain)

lemma no_signature_digit: "\<not> code_signature (strip ''1. a'')"
  by (simp add: strip_def is_space_def code_signature_def import_head_def call_head_def)

theorem formatter_idempotent_without_keywords_witness:
  "\<not> contains ''```'' ''1. a'' \<and>
   list_all (\<lambda>l. \<not> code_signature (strip l)) (split_nl ''1. a'') \<and>
   list_all (\<lambda>K. \<not> contains (lower (K @ '':'')) (lower ''1. a'')) important_keywords \<and>
   enhance_response_formatting ''1. a'' = nl # ''1. a'' \<and>
   enhance_response_formatting (enhance_response_formatting ''1. a'') = enhance_response_formatting ''1. a''"
proof -
  have a: "\<not> contains ''```'' ''1. a''" by simp
  have b: "\<forall>l\<in>set (split_nl ''1. a''). \<not> code_signature (strip l)"
    using no_signature_digit by simp
  have c: "\<forall>K\<in>set important_keywords. \<not> contains (lower (K @ '':'')) (lower ''1. a'')"
    by (simp add: important_keywords_def lower_eval)
  have d: "enhance_response_formatting ''1. a'' = nl # ''1. a''"
    using enhance_plain [OF b c] by (simp add: numbered_match_def is_digit_def is_space_def line_start_def)
  from formatter_idempotent_without_keywords [OF a b c] a b c d show ?thesis
    by (simp add: list_all_iff)
qed

text \<open>
  The claim as stated fails on a keyword line: the second pass finds \<open>NOTE:\<close> inside the
  emphasis that the first pass wrote, and wraps it again.
\<close>

theorem formatter_idempotent_counterexample:
  "\<not> contains ''```'' ''NOTE: x'' \<and>
   split_nl ''NOTE: x'' = [''NOTE: x''] \<and> \<not> code_signature (strip ''NOTE: x'') \<and>
   enhance_response_formatting ''NOTE: x'' = ''**_NOTE:_**  x'' \<and>
   enhance_response_formatting (enhance_response_formatting ''NOTE: x'') = ''**_**_NOTE:_** _**  x'' \<and>
   ''**_**_NOTE:_** _**  x'' \<noteq> ''**_NOTE:_**  x''"
proof -
  have "\<not> code_signature (strip (''NOTE'' @ '':'' @ '' x''))"
    by (rule keyword_line_no_signature [of "''NOTE''"]) (simp_all add: important_keywords_def)
  then show ?thesis by (simp add: enhance_note enhance_note_again)
qed

section \<open>Properties of the simulated responder\<close>

text \<open>
  C5 (amended). A prompt whose lowercased text contains both \<open>driveos\<close> and \<open>ndas\<close>, and
  which triggers neither of the two special cases that the source tests afterwards (the
  \<open>dtsi\<close>/\<open>startupcmd\<close> pair; \<open>secpolicy\<close>, or \<open>security\<close> with \<open>policy\<close>), gets the
  integration-steps answer as the text handed to the formatter.
\<close>

theorem steps_rule_unless_overridden:
  assumes "contains ''driveos'' (lower prompt)"
    and "contains ''ndas'' (lower prompt)"
    and "\<not> (contains ''dtsi'' (lower prompt) \<and> contains ''startupcmd'' (lower prompt))"
    and "\<not> (contains ''secpolicy'' (lower prompt) \<or>
             (contains ''security'' (lower prompt) \<and> contains ''policy'' (lower prompt)))"
  shows "simulated_response_text prompt context = steps_info"
  using assms by (auto simp: simulated_response_text_def Let_def)

theorem steps_rule_unless_overridden_witness:
  "contains ''driveos'' (lower ''DriveOS NDAS'') \<and>
   contains ''ndas'' (lower ''DriveOS NDAS'') \<and>
   \<not> (contains ''dtsi'' (lower ''DriveOS NDAS'') \<and> contains ''startupcmd'' (lower ''DriveOS NDAS'')) \<and>
   \<not> (contains ''secpolicy'' (lower ''DriveOS NDAS'') \<or>
       (contains ''security'' (lower ''DriveOS NDAS'') \<and> contains ''policy'' (lower ''DriveOS NDAS''))) \<and>
   simulated_response_text ''DriveOS NDAS'' ''ctx'' = steps_info"
  using steps_rule_unless_overridden [of "''DriveOS NDAS''" "''ctx''"]
  by (simp add: lower_eval)

text \<open>
  The claim as stated fails: the security-policy case is tested last and replaces the
  integration-steps answer.
\<close>

theorem steps_rule_counterexample:
  "contains ''driveos'' (lower ''driveos ndas secpolicy'') \<and>
   contains ''ndas'' (lower ''driveos ndas secpolicy'') \<and>
   simulated_response_text ''driveos ndas secpolicy'' [] = secpolicy_info \<and>
   secpolicy_info \<noteq> steps_info"
  by (simp add: lower_eval simulated_response_text_def Let_def)
    (simp add: secpolicy_info_def steps_info_def)

lemma lower_keys:
  "lower ''avos'' = ''avos''" "lower ''drive'' = ''drive''" "lower ''driveos'' = ''driveos''"
  "lower ''ndas'' = ''ndas''" "lower ''feature'' = ''feature''" "lower ''dtsi'' = ''dtsi''"
  "lower ''steps'' = ''steps''" "lower ''secpolicy'' = ''secpolicy''"
  by (simp_all add: lower_eval)

lemma context_response_contains: "contains context (context_response context)"
  unfolding contains_sublist context_response_def by (rule sublist_appendI)

lemma default_text:
  assumes "list_all (\<lambda>keyword. \<not> contains (lower keyword) (lower prompt)) (map fst avos_knowledge)"
    and "\<not> (contains ''security'' (lower prompt) \<and> contains ''policy'' (lower prompt))"
  shows "simulated_response_text prompt context =
         (if context = [] then default_response else context_response context)"
proof -
  from assms(1) have k: "\<not> contains ''avos'' (lower prompt)" "\<not> contains ''drive'' (lower prompt)"
    "\<not> contains ''driveos'' (lower prompt)" "\<not> contains ''ndas'' (lower prompt)"
    "\<not> contains ''feature'' (lower prompt)" "\<not> contains ''dtsi'' (lower prompt)"
    "\<not> contains ''steps'' (lower prompt)" "\<not> contains ''secpolicy'' (lower prompt)"
    by (simp_all add: avos_knowledge_def lower_keys)
  then have scan: "scan_knowledge avos_knowledge (lower prompt) default_response = default_response"
    by (simp add: avos_knowledge_def lower_keys)
  show ?thesis
    using k assms(2) by (auto simp: simulated_response_text_def Let_def scan default_marker)
qed

lemma hello_no_keyword:
  "list_all (\<lambda>keyword. \<not> contains (lower keyword) (lower ''hello'')) (map fst avos_knowledge)"
  "\<not> (contains ''security'' (lower ''hello'') \<and> contains ''policy'' (lower ''hello''))"
  by (simp_all add: avos_knowledge_def lower_eval)

lemma enhance_context_note:
  "enhance_response_formatting (context_response ''NOTE: x'') =
   ''Based on the available information: **_NOTE:_**  x'' @ [nl, nl] @
   ''However, please note that this information may be limited. For more detailed information, please consult the official NVIDIA AVOS documentation.''"
proof -
  let ?T = "nl # ''However, please note that this information may be limited. For more detailed information, please consult the official NVIDIA AVOS documentation.''"
  let ?s = "''Based on the available information: NOTE: x'' @ nl # ?T"
  let ?r = "''Based on the available information: **_NOTE:_**  x'' @ nl # ?T"
  have s: "context_response ''NOTE: x'' = ?s" by (simp add: context_response_def)
  have f: "fence_code ?s = ?s"
    by (rule fence_code_no_words) simp_all
  have h1: "highlight ''IMPORTANT'' ?s = ?s"
    by (rule highlight_absent) (simp add: lower_eval)
  have h2: "highlight ''WARNING'' ?s = ?s"
    by (rule highlight_absent) (simp add: lower_eval)
  have h3: "highlight ''CRITICAL'' ?s = ?s"
    by (rule highlight_absent) (simp add: lower_eval)
  have t: "highlight ''NOTE'' ?T = ?T"
    by (rule highlight_no_colon) simp
  have h4: "highlight ''NOTE'' ?s = ?r"
    using highlight_skip_colon [of "''Based on the available information''" "''NOTE''" "'' NOTE: x'' @ nl # ?T"]
      highlight_skip_before [of "'' ''" "''NOTE''" "''NOTE''" "'' x'' @ nl # ?T"]
      highlight_match_nl [of "''NOTE''" "''NOTE''" "'' x''" ?T] t
    by (simp add: lower_eval suffix_to_prefix)
  have h5: "highlight ''CAUTION'' ?r = ?r"
    by (rule highlight_absent) (simp add: lower_eval)
  have "fold highlight important_keywords ?s = ?r"
    by (simp only: important_keywords_def fold_simps h1 h2 h3 h4 h5 comp_def)
  then show ?thesis
    unfolding s enhance_cases f by (simp add: marker_eval)
qed

text \<open>
  C8 (amended). A prompt whose lowercased text contains no key of the knowledge base and
  not both \<open>security\<close> and \<open>policy\<close> (the other special cases need a key) gets, with an
  empty context, the fixed default message as the returned response; with a non-empty
  context, the text handed to the formatter is the context message, which embeds the
  context verbatim. The returned response is that text after formatting.
\<close>

theorem default_path:
  assumes "list_all (\<lambda>keyword. \<not> contains (lower keyword) (lower prompt)) (map fst avos_knowledge)"
    and "\<not> (contains ''security'' (lower prompt) \<and> contains ''policy'' (lower prompt))"
  shows "get_simulated_response prompt [] = default_response \<and>
         (context \<noteq> [] \<longrightarrow>
            simulated_response_text prompt context = context_response context \<and>
            contains context (simulated_response_text prompt context))"
  using default_text [OF assms]
  by (simp add: get_simulated_response_def enhance_default context_response_contains)

theorem default_path_witness:
  "list_all (\<lambda>keyword. \<not> contains (lower keyword) (lower ''hello'')) (map fst avos_knowledge) \<and>
   \<not> (contains ''security'' (lower ''hello'') \<and> contains ''policy'' (lower ''hello'')) \<and>
   get_simulated_response ''hello'' [] = default_response \<and>
   simulated_response_text ''hello'' ''ctx'' = context_response ''ctx'' \<and>
   contains ''ctx'' (simulated_response_text ''hello'' ''ctx'')"
  using default_path [OF hello_no_keyword, of "''ctx''"] hello_no_keyword by blast

text \<open>
  The claim as stated fails for the returned response: the formatter rewrites a keyword
  line inside the context, so the context is no longer a part of the response.
\<close>

theorem default_path_counterexample:
  "list_all (\<lambda>keyword. \<not> contains (lower keyword) (lower ''hello'')) (map fst avos_knowledge) \<and>
   \<not> (contains ''security'' (lower ''hello'') \<and> contains ''policy'' (lower ''hello'')) \<and>
   ''NOTE: x'' \<noteq> [] \<and>
   get_simulated_response ''hello'' ''NOTE: x'' =
     ''Based on the available information: **_NOTE:_**  x'' @ [nl, nl] @
     ''However, please note that this information may be limited. For more detailed information, please consult the official NVIDIA AVOS documentation.'' \<and>
   \<not> contains ''NOTE: x'' (get_simulated_response ''hello'' ''NOTE: x'')"
proof -
  have "get_simulated_response ''hello'' ''NOTE: x'' =
     ''Based on the available information: **_NOTE:_**  x'' @ [nl, nl] @
     ''However, please note that this information may be limited. For more detailed information, please consult the official NVIDIA AVOS documentation.''"
    using default_text [OF hello_no_keyword, of "''NOTE: x''"]
    by (simp add: get_simulated_response_def enhance_context_note)
  then show ?thesis using hello_no_keyword by simp
qed

lemma enhance_secpolicy: "enhance_response_formatting secpolicy_info = secpolicy_info"
  by (rule enhance_fixed) (simp_all add: secpolicy_info_def marker_eval)

text \<open>
  C10 (amended). The table is scanned in order and the first key found in the lowercased
  prompt wins. A prompt that contains \<open>driveos\<close> also contains \<open>drive\<close>, which comes
  earlier; so when the only earlier key, \<open>avos\<close>, is absent and none of the three special
  cases of the source applies (\<open>driveos\<close> with \<open>ndas\<close>; \<open>dtsi\<close> with \<open>startupcmd\<close>; the
  security-policy case, which is the single key \<open>secpolicy\<close> or \<open>security\<close> with \<open>policy\<close>),
  the answer is the \<open>drive\<close> entry, before and after formatting, and not the \<open>driveos\<close>
  entry.
\<close>

theorem drive_shadows_driveos:
  assumes "contains ''driveos'' (lower prompt)"
    and "\<not> contains ''avos'' (lower prompt)"
    and "\<not> (contains ''driveos'' (lower prompt) \<and> contains ''ndas'' (lower prompt))"
    and "\<not> (contains ''dtsi'' (lower prompt) \<and> contains ''startupcmd'' (lower prompt))"
    and "\<not> (contains ''secpolicy'' (lower prompt) \<or>
             (contains ''security'' (lower prompt) \<and> contains ''policy'' (lower prompt)))"
  shows "simulated_response_text prompt context = drive_info \<and>
         get_simulated_response prompt context = drive_info \<and>
         drive_info \<noteq> driveos_info"
proof -
  have "contains ''drive'' ''driveos''" by simp
  from contains_trans [OF this assms(1)] have d: "contains ''drive'' (lower prompt)" .
  have scan: "scan_knowledge avos_knowledge (lower prompt) default_response = drive_info"
    using d assms(2) by (simp add: avos_knowledge_def lower_keys)
  have t: "simulated_response_text prompt context = drive_info"
    using assms(3-5) by (auto simp: simulated_response_text_def Let_def scan drive_no_marker)
  have "drive_info \<noteq> driveos_info" by (simp add: drive_info_def driveos_info_def)
  with t show ?thesis by (simp add: get_simulated_response_def enhance_drive)
qed

theorem drive_shadows_driveos_witness:
  "contains ''driveos'' (lower ''What is DriveOS?'') \<and>
   \<not> contains ''avos'' (lower ''What is DriveOS?'') \<and>
   \<not> (contains ''driveos'' (lower ''What is DriveOS?'') \<and> contains ''ndas'' (lower ''What is DriveOS?'')) \<and>
   \<not> (contains ''dtsi'' (lower ''What is DriveOS?'') \<and> contains ''startupcmd'' (lower ''What is DriveOS?'')) \<and>
   \<not> (contains ''secpolicy'' (lower ''What is DriveOS?'') \<or>
       (contains ''security'' (lower ''What is DriveOS?'') \<and> contains ''policy'' (lower ''What is DriveOS?''))) \<and>
   simulated_response_text ''What is DriveOS?'' ''ctx'' = drive_info \<and>
   get_simulated_response ''What is DriveOS?'' ''ctx'' = drive_info \<and>
   drive_info \<noteq> driveos_info"
  using drive_shadows_driveos [of "''What is DriveOS?''" "''ctx''"]
  by (simp add: lower_eval)

text \<open>
  The claim as stated, which excludes only the earlier keys and the pairs of the special
  cases, fails: the single key \<open>secpolicy\<close> is not an earlier key and not a pair, and the
  security-policy case, tested last, replaces the \<open>drive\<close> answer.
\<close>

theorem drive_shadows_driveos_counterexample:
  "contains ''driveos'' (lower ''driveos secpolicy'') \<and>
   \<not> contains ''avos'' (lower ''driveos secpolicy'') \<and>
   \<not> (contains ''driveos'' (lower ''driveos secpolicy'') \<and> contains ''ndas'' (lower ''driveos secpolicy'')) \<and>
   \<not> (contains ''dtsi'' (lower ''driveos secpolicy'') \<and> contains ''startupcmd'' (lower ''driveos secpolicy'')) \<and>
   \<not> (contains ''security'' (lower ''driveos secpolicy'') \<and> contains ''policy'' (lower ''driveos secpolicy'')) \<and>
   simulated_response_text ''driveos secpolicy'' [] = secpolicy_info \<and>
   get_simulated_response ''driveos secpolicy'' [] = secpolicy_info \<and>
   secpolicy_info \<noteq> drive_info"
proof -
  have "secpolicy_info \<noteq> drive_info" by (simp add: secpolicy_info_def drive_info_def)
  then show ?thesis
    by (simp add: lower_eval simulated_response_text_def Let_def get_simulated_response_def
        enhance_secpolicy)
qed

section \<open>Properties of the token cache\<close>





lemma double_of_rounds: "double_of (10 ^ 16 + 1) = Finite (10 ^ 16)"
  by code_simp

lemma round_half_even_ge: "\<lfloor>y\<rfloor> \<le> round_half_even y"
  by (simp add: round_half_even_def Let_def)

lemma float_of_int_overflow:
  assumes "2 ^ 1024 \<le> i"
  shows "float_of_int i = None"
proof -
  define e where "e = bitlen i - 1"
  have p: "(0::int) < 2 ^ 1024" by (rule zero_less_power) simp
  have ipos: "0 < i" using assms p by linarith
  have b: "2 ^ nat e \<le> i" "i < 2 ^ nat (bitlen i)"
    using bitlen_bounds [OF ipos] by (simp_all add: e_def)
  have "(2::int) ^ 1024 < 2 ^ nat (bitlen i)" using assms b(2) by linarith
  then have "1024 < nat (bitlen i)" by (rule power_less_imp_less_exp [rotated]) simp
  then have e: "1024 \<le> e" by (simp add: e_def)
  have ex: "exponent \<bar>of_int i\<bar> = e" using ipos by (simp add: exponent_def e_def)
  define u :: real where "u = 2 ^ nat (e - 52)"
  have ulp: "pow2 (max (exponent \<bar>of_int i\<bar>) (- 1022) - 52) = u"
    using e by (simp add: ex pow2_def u_def max_def)
  have upos: "0 < u" by (simp add: u_def)
  have "nat e = 52 + nat (e - 52)" using e by simp
  then have eu: "(2::real) ^ nat e = 2 ^ 52 * u" unfolding u_def by (simp only: power_add)
  have "(2::real) ^ nat e \<le> of_int i" using b(1) by (metis of_int_le_iff of_int_numeral of_int_power)
  then have "2 ^ 52 * u \<le> of_int i" by (simp only: eu)
  then have "2 ^ 52 \<le> of_int i / u" using upos by (simp only: pos_le_divide_eq)
  then have "(2::int) ^ 52 \<le> \<lfloor>of_int i / u\<rfloor>" by (simp add: le_floor_iff)
  then have "(2::int) ^ 52 \<le> round_half_even (of_int i / u)"
    using round_half_even_ge [of "of_int i / u"] by linarith
  then have "(2::real) ^ 52 \<le> of_int (round_half_even (of_int i / u))"
    by (metis of_int_le_iff of_int_numeral of_int_power)
  then have "2 ^ 52 * u \<le> of_int (round_half_even (of_int i / u)) * u"
    using upos by (simp only: mult_le_cancel_right_pos)
  then have "2 ^ nat e \<le> of_int (round_half_even (of_int i / u)) * u"
    by (simp only: eu)
  moreover have "(2::real) ^ 1024 \<le> 2 ^ nat e" using e by (intro power_increasing) simp_all
  moreover have "\<bar>of_int i\<bar> = (of_int i :: real)" using ipos by simp
  ultimately have "(2::real) ^ 1024 \<le> of_int (round_half_even (\<bar>of_int i\<bar> / u)) * u"
    by (simp only: order_trans)
  then show ?thesis
    using ipos by (simp only: float_of_int_def double_of_def Let_def ulp) simp
qed

lemma cached_token_rounded_sum:
  "cached_token (10 ^ 16)
     (PDict [(''access_token'', PStr t), (''expires_in'', PFloat (Finite 1)),
             (''created_at'', PFloat (Finite (10 ^ 16)))]) = Inr None"
  using double_of_rounds by (simp add: cached_token_def py_add_def as_float_def)

lemma cached_token_overflow:
  assumes "2 ^ 1024 \<le> n"
  shows "cached_token now
           (PDict [(''access_token'', PStr t), (''expires_in'', PFloat x),
                   (''created_at'', PInt n)]) = Inl OverflowError"
  using float_of_int_overflow [OF assms]
  by (simp add: cached_token_def py_add_def as_float_def)

lemma get_oauth_token_overflow:
  assumes "DEPENDENCIES_INSTALLED e" "2 ^ 1024 \<le> n"
    "cache_file w = Document (PDict [(''access_token'', PStr t),
       (''expires_in'', PFloat x), (''created_at'', PInt n)])"
  shows "get_oauth_token e w url cid sec scope = (PNone, w)"
  using assms(1,3) cached_token_overflow [OF assms(2)] by (simp add: get_oauth_token_def)

lemma request_token_ok:
  assumes "token_response e = Body (PDict body)" "write_ok e"
  shows "request_token e w url scope =
           (case map_of body ''access_token'' of None \<Rightarrow> PNone | Some v \<Rightarrow> v,
            w\<lparr>requests_sent := requests_sent w @ [(url, ''grant_type=client_credentials&scope='' @ scope)],
              cache_file := Document (PDict (AList.update ''created_at'' (PFloat (Finite (time_at_stamp e))) body))\<rparr>)"
  using assms by (simp add: request_token_def Let_def update_conv' split: option.splits)

lemma request_token_sends:
  "requests_sent (snd (request_token e w url scope)) =
     requests_sent w @ [(url, ''grant_type=client_credentials&scope='' @ scope)]"
  by (simp add: request_token_def Let_def split: http_result.splits sum.splits)

lemma get_oauth_token_cases:
  "get_oauth_token e w url cid sec scope = (PNone, w) \<or>
   (\<exists>v. get_oauth_token e w url cid sec scope = (v, w)) \<or>
   get_oauth_token e w url cid sec scope = request_token e w url scope"
  by (simp add: get_oauth_token_def split: file_state.splits sum.splits option.splits)




text \<open>
  C3 (amended). A failure while reading the cache file (the file cannot be opened or is
  not JSON) does not propagate, but it ends the call: the function returns null, sends no
  request and leaves the world as it is. A failure during the exchange (the request or
  the parsing of its body fails, the body is not an object, the file cannot be written,
  or the record has no \<open>access_token\<close>) makes the function return null.
\<close>

theorem cache_read_failure_returns_null:
  "(cache_file w = Unreadable \<longrightarrow> get_oauth_token e w url cid sec scope = (PNone, w)) \<and>
   (requests_sent (snd (get_oauth_token e w url cid sec scope)) \<noteq> requests_sent w \<and>
    (case token_response e of
       RequestFails \<Rightarrow> True
     | Body (PDict body) \<Rightarrow> \<not> write_ok e \<or> map_of body ''access_token'' = None
     | Body _ \<Rightarrow> True)
    \<longrightarrow> fst (get_oauth_token e w url cid sec scope) = PNone)"
proof (intro conjI impI)
  assume "cache_file w = Unreadable"
  then show "get_oauth_token e w url cid sec scope = (PNone, w)"
    by (simp add: get_oauth_token_def)
next
  assume a: "requests_sent (snd (get_oauth_token e w url cid sec scope)) \<noteq> requests_sent w \<and>
    (case token_response e of
       RequestFails \<Rightarrow> True
     | Body (PDict body) \<Rightarrow> \<not> write_ok e \<or> map_of body ''access_token'' = None
     | Body _ \<Rightarrow> True)"
  with get_oauth_token_cases [of e w url cid sec scope]
  have r: "get_oauth_token e w url cid sec scope = request_token e w url scope" by auto
  from a have "fst (request_token e w url scope) = PNone"
    by (auto simp: request_token_def Let_def update_conv' split: http_result.splits pyval.splits)
  with r show "fst (get_oauth_token e w url cid sec scope) = PNone" by simp
qed

theorem cache_read_failure_returns_null_witness:
  "get_oauth_token sample_env (empty_world\<lparr>cache_file := Unreadable\<rparr>)
     ''https://token'' ''id'' ''secret'' ''scope'' = (PNone, empty_world\<lparr>cache_file := Unreadable\<rparr>) \<and>
   requests_sent (snd (get_oauth_token (sample_env\<lparr>token_response := RequestFails\<rparr>) empty_world
     ''https://token'' ''id'' ''secret'' ''scope'')) \<noteq> requests_sent empty_world \<and>
   fst (get_oauth_token (sample_env\<lparr>token_response := RequestFails\<rparr>) empty_world
     ''https://token'' ''id'' ''secret'' ''scope'') = PNone"
proof -
  have s: "requests_sent (snd (get_oauth_token (sample_env\<lparr>token_response := RequestFails\<rparr>) empty_world
     ''https://token'' ''id'' ''secret'' ''scope'')) \<noteq> requests_sent empty_world"
    by (simp add: get_oauth_token_def request_token_def sample_env_def empty_world_def)
  from cache_read_failure_returns_null [of "empty_world\<lparr>cache_file := Unreadable\<rparr>" sample_env
      "''https://token''" "''id''" "''secret''" "''scope''"]
    cache_read_failure_returns_null [of empty_world "sample_env\<lparr>token_response := RequestFails\<rparr>"
      "''https://token''" "''id''" "''secret''" "''scope''"] s
  show ?thesis by simp
qed

text \<open>
  The claim as stated fails: with an unreadable cache file no request is sent, although
  the exchange would have succeeded, as it does when the file is absent.
\<close>

theorem cache_read_failure_counterexample:
  "DEPENDENCIES_INSTALLED sample_env \<and>
   get_oauth_token sample_env (empty_world\<lparr>cache_file := Unreadable\<rparr>)
     ''https://token'' ''id'' ''secret'' ''scope'' = (PNone, empty_world\<lparr>cache_file := Unreadable\<rparr>) \<and>
   requests_sent (empty_world\<lparr>cache_file := Unreadable\<rparr>) = [] \<and>
   fst (get_oauth_token sample_env (empty_world\<lparr>cache_file := Absent\<rparr>)
     ''https://token'' ''id'' ''secret'' ''scope'') = PStr ''tok''"
  by (simp add: get_oauth_token_def request_token_def sample_env_def empty_world_def sample_token_def)

text \<open>
  C9. When the exchange is performed, the token endpoint answers with a JSON object that
  has no \<open>access_token\<close>, and the file can be written, then the function returns null and
  the cache file holds that object with \<open>created_at\<close> added.
\<close>

theorem failed_exchange_overwrites_cache:
  assumes "token_response e = Body (PDict body)" and "map_of body ''access_token'' = None"
    and "write_ok e"
    and "get_oauth_token e w url cid sec scope = (r, w')"
    and "requests_sent w' \<noteq> requests_sent w"
  shows "r = PNone \<and>
         cache_file w' = Document (PDict (AList.update ''created_at'' (PFloat (Finite (time_at_stamp e))) body))"
proof -
  from get_oauth_token_cases [of e w url cid sec scope] assms(4,5)
  have "request_token e w url scope = (r, w')" by auto
  with request_token_ok [OF assms(1,3), of w url scope] assms(2) show ?thesis by auto
qed

theorem failed_exchange_overwrites_cache_witness:
  "get_oauth_token (sample_env\<lparr>token_response := Body (PDict [(''error'', PStr ''denied'')])\<rparr>)
     empty_world ''https://token'' ''id'' ''secret'' ''scope''
   = (PNone,
      \<lparr>cache_file = Document (PDict [(''error'', PStr ''denied''), (''created_at'', PFloat (Finite 101))]),
       requests_sent = [(''https://token'', ''grant_type=client_credentials&scope=scope'')]\<rparr>) \<and>
   cache_file empty_world = Absent"
proof -
  let ?e = "sample_env\<lparr>token_response := Body (PDict [(''error'', PStr ''denied'')])\<rparr>"
  obtain r w' where g: "get_oauth_token ?e empty_world ''https://token'' ''id'' ''secret'' ''scope'' = (r, w')"
    by force
  have s: "requests_sent w' = [(''https://token'', ''grant_type=client_credentials&scope=scope'')]"
    using g by (auto simp: get_oauth_token_def request_token_def sample_env_def empty_world_def)
  then have "requests_sent w' \<noteq> requests_sent empty_world" by (simp add: empty_world_def)
  from failed_exchange_overwrites_cache [OF _ _ _ g this, of "[(''error'', PStr ''denied'')]"]
  have "r = PNone \<and> cache_file w' = Document (PDict [(''error'', PStr ''denied''), (''created_at'', PFloat (Finite 101))])"
    by (simp add: sample_env_def)
  with s g show ?thesis by (cases w') (simp add: empty_world_def)
qed

section \<open>Properties of the context formatter\<close>


















section \<open>Properties of the orchestrator\<close>

lemma enhance_Nil: "enhance_response_formatting [] = []"
  by (rule enhance_fixed) (simp_all add: marker_eval)

lemma enhance_avos: "enhance_response_formatting avos_info = avos_info"
  by (rule enhance_fixed) (simp_all add: avos_info_def marker_eval)

lemma info_nonempty:
  "avos_info \<noteq> []" "drive_info \<noteq> []" "driveos_info \<noteq> []" "ndas_info \<noteq> []"
  "feature_info \<noteq> []" "dtsi_info \<noteq> []" "steps_info \<noteq> []" "secpolicy_info \<noteq> []"
  "default_response \<noteq> []" "context_response c \<noteq> []"
  by (simp_all add: avos_info_def drive_info_def driveos_info_def ndas_info_def feature_info_def
      dtsi_info_def steps_info_def secpolicy_info_def default_response_def context_response_def)

lemma scan_knowledge_cases:
  "scan_knowledge kv pl d = d \<or> scan_knowledge kv pl d \<in> snd ` set kv"
  by (induction kv) force+

lemma scan_nonempty: "scan_knowledge avos_knowledge pl default_response \<noteq> []"
  using scan_knowledge_cases [of avos_knowledge pl default_response] info_nonempty
  by (auto simp: avos_knowledge_def)

lemma simulated_text_nonempty: "simulated_response_text prompt context \<noteq> []"
  using scan_nonempty [of "lower prompt"] info_nonempty
  by (simp add: simulated_response_text_def Let_def)

lemma simulated_response_nonempty: "get_simulated_response prompt context \<noteq> []"
  unfolding get_simulated_response_def by (rule enhance_nonempty) (rule simulated_text_nonempty)

lemma body_returns_text:
  "\<exists>s. fst (llm_response_body e w prompt context system_prompt history db_data) = Inr (PStr s)"
  by (simp add: llm_response_body_def
      split: sum.splits prod.splits option.splits api_result.splits pyval.splits)

text \<open>
  C1 (amended). For every prompt, context, system prompt, history string and database
  payload, in every environment, the body of \<open>get_llm_response\<close> ends in the return of a
  string: no exception reaches the decorator, which hands that string on. The string is
  not empty provided the completion endpoint never answers with the empty text. When
  formatting the database payload raises, the string is the fixed apology; when the
  payload is formatted and the API path fails (the dependencies are missing, no client is
  obtained, or the completion endpoint gives no text), it is the answer of the simulated
  responder for the prompt and the merged context.
\<close>

theorem orchestrator_returns_text:
  "(\<exists>s. fst (llm_response_body e w prompt context system_prompt history db_data) = Inr (PStr s) \<and>
        fst (get_llm_response e w prompt context system_prompt history db_data) = s) \<and>
   ((\<forall>client messages. chat_completion e client messages \<noteq> Content (PStr [])) \<longrightarrow>
      fst (get_llm_response e w prompt context system_prompt history db_data) \<noteq> []) \<and>
   ((\<exists>err. merge_context e context db_data = Inl err) \<longrightarrow>
      fst (get_llm_response e w prompt context system_prompt history db_data) = technical_difficulties) \<and>
   (\<forall>merged. merge_context e context db_data = Inr merged \<and>
      (\<not> DEPENDENCIES_INSTALLED e \<or> fst (get_azure_client e w) = None \<or>
       (\<forall>client messages r. chat_completion e client messages \<noteq> Content (PStr r))) \<longrightarrow>
      fst (get_llm_response e w prompt context system_prompt history db_data) =
        get_simulated_response prompt merged)"
proof (intro conjI impI allI)
  obtain s where "fst (llm_response_body e w prompt context system_prompt history db_data) = Inr (PStr s)"
    using body_returns_text by blast
  then show "\<exists>s. fst (llm_response_body e w prompt context system_prompt history db_data) = Inr (PStr s) \<and>
        fst (get_llm_response e w prompt context system_prompt history db_data) = s"
    by (auto simp: get_llm_response_def safe_response_def split: prod.splits)
next
  assume a: "\<forall>client messages. chat_completion e client messages \<noteq> Content (PStr [])"
  have td: "technical_difficulties \<noteq> []" by (simp add: technical_difficulties_def)
  have en: "enhance_response_formatting r \<noteq> []"
    if "chat_completion e c ms = Content (PStr r)" for c ms r
  proof (rule enhance_nonempty)
    from a that show "r \<noteq> []" by auto
  qed
  show "fst (get_llm_response e w prompt context system_prompt history db_data) \<noteq> []"
    using td en simulated_response_nonempty
    by (auto simp: get_llm_response_def safe_response_def llm_response_body_def
        split: sum.splits prod.splits option.splits api_result.splits pyval.splits)
next
  assume "\<exists>err. merge_context e context db_data = Inl err"
  then show "fst (get_llm_response e w prompt context system_prompt history db_data) = technical_difficulties"
    by (auto simp: get_llm_response_def safe_response_def llm_response_body_def)
next
  fix merged
  assume "merge_context e context db_data = Inr merged \<and>
      (\<not> DEPENDENCIES_INSTALLED e \<or> fst (get_azure_client e w) = None \<or>
       (\<forall>client messages r. chat_completion e client messages \<noteq> Content (PStr r)))"
  then show "fst (get_llm_response e w prompt context system_prompt history db_data) =
        get_simulated_response prompt merged"
    by (auto simp: get_llm_response_def safe_response_def llm_response_body_def
        split: prod.splits option.splits api_result.splits pyval.splits)
qed


lemma sample_client:
  "get_azure_client (sample_env\<lparr>chat_completion := f\<rparr>) empty_world =
     (Some (AzureOpenAI (PStr ''tok'')),
      \<lparr>cache_file = Document (PDict [(''access_token'', PStr ''tok''), (''expires_in'', PInt 3600),
                                     (''created_at'', PFloat (Finite 101))]),
       requests_sent = [(''https://token'', ''grant_type=client_credentials&scope=azureopenai-readwrite'')]\<rparr>)"
  by (simp add: get_azure_client_def get_oauth_token_def request_token_def sample_env_def
      empty_world_def sample_token_def)

lemma simulated_avos: "get_simulated_response ''What is AVOS?'' [] = avos_info"
  by (simp add: get_simulated_response_def simulated_response_text_def avos_knowledge_def
      lower_eval enhance_avos Let_def)

lemma sample_env_update: "sample_env\<lparr>chat_completion := chat_completion sample_env\<rparr> = sample_env"
  by simp

theorem orchestrator_returns_text_witness:
  "fst (get_llm_response sample_env empty_world ''What is AVOS?'' [] [] ''[]'' PNone) = avos_info \<and>
   avos_info \<noteq> [] \<and>
   merge_context sample_env [] (PList [PDict [(''content'', PNone)]]) = Inl AttributeError \<and>
   fst (get_llm_response sample_env empty_world ''What is AVOS?'' [] [] ''[]''
          (PList [PDict [(''content'', PNone)]])) = technical_difficulties \<and>
   merge_context sample_env [] PNone = Inr [] \<and>
   fst (get_llm_response sample_env empty_world ''What is AVOS?'' [] [] ''[]'' PNone) =
     get_simulated_response ''What is AVOS?'' []"
proof -
  have c: "get_azure_client sample_env empty_world =
     (Some (AzureOpenAI (PStr ''tok'')),
      \<lparr>cache_file = Document (PDict [(''access_token'', PStr ''tok''), (''expires_in'', PInt 3600),
                                     (''created_at'', PFloat (Finite 101))]),
       requests_sent = [(''https://token'', ''grant_type=client_credentials&scope=azureopenai-readwrite'')]\<rparr>)"
    using sample_client [of "chat_completion sample_env"] by (simp only: sample_env_update)
  have d: "DEPENDENCIES_INSTALLED sample_env" "chat_completion sample_env = (\<lambda>c ms. ApiFails)"
    by (simp_all add: sample_env_def)
  have 1: "fst (get_llm_response sample_env empty_world ''What is AVOS?'' [] [] ''[]'' PNone) = avos_info"
    by (simp add: get_llm_response_def llm_response_body_def merge_context_def c d
        safe_response_def simulated_avos)
  have 2: "merge_context sample_env [] (PList [PDict [(''content'', PNone)]]) = Inl AttributeError"
    by (simp add: merge_context_def format_db_data_for_llm_def format_record_def)
  from orchestrator_returns_text [of sample_env empty_world "''What is AVOS?''" "[]" "[]" "''[]''" PNone]
    orchestrator_returns_text [of sample_env empty_world "''What is AVOS?''" "[]" "[]" "''[]''"
      "PList [PDict [(''content'', PNone)]]"] 1 2 d
  show ?thesis by (auto simp: merge_context_def simulated_avos)
qed

text \<open>
  The claim as stated fails: an empty completion passes the formatter unchanged and is
  returned, since the decorator only checks that the result is a string.
\<close>

theorem orchestrator_empty_completion_counterexample:
  "fst (get_llm_response (sample_env\<lparr>chat_completion := (\<lambda>c ms. Content (PStr []))\<rparr>) empty_world
          ''What is AVOS?'' [] [] ''[]'' PNone) = []"
proof -
  have d: "DEPENDENCIES_INSTALLED (sample_env\<lparr>chat_completion := (\<lambda>c ms. Content (PStr []))\<rparr>)"
    by (simp add: sample_env_def)
  show ?thesis
    by (simp add: get_llm_response_def llm_response_body_def merge_context_def sample_client d
        safe_response_def enhance_Nil)
qed

end
